theory Spec2Isabelle
  imports Complex_Main "HOL-Library.AList" "HOL-Library.Sublist"
begin

section \<open>Data model\<close>

text \<open>
  The parsed document is the tree that \<^verbatim>\<open>BeautifulSoup(html, 'html.parser')\<close> builds.
  An attribute value is a string, or a list of strings for the multi-valued attributes
  (\<^verbatim>\<open>class\<close>, \<^verbatim>\<open>rel\<close>, \<^verbatim>\<open>accept-charset\<close>, ...). The same variant is what
  \<^verbatim>\<open>parse_attributes\<close> stores in its result dictionary. A dictionary is an association
  list in insertion order.
\<close>

datatype attr_value = Scalar string | Multi "string list"

type_synonym attrs = "(string \<times> attr_value) list"

datatype node = Tag string attrs "node list" | NavigableString string

text \<open>
  An element as \<^verbatim>\<open>generate_element_path\<close> sees it: \<^verbatim>\<open>.name\<close>, \<^verbatim>\<open>.attrs\<close> and
  \<^verbatim>\<open>.parent\<close> (\<^verbatim>\<open>None\<close> above the \<^verbatim>\<open>BeautifulSoup\<close> object).
\<close>

datatype element = Element (el_name: string) (el_attrs: attrs) (el_parent: "element option")

text \<open>
  The exceptions: \<^verbatim>\<open>ValueError\<close> is raised by the numerical library, \<^verbatim>\<open>IndexError\<close> by
  indexing a list out of range. \<^verbatim>\<open>EmptyDocument\<close> is the condition that the design's error
  taxonomy names; the source defines no such exception and raises it nowhere.
\<close>

datatype error = ValueError | IndexError | EmptyDocument

section \<open>Python string helpers\<close>

text \<open>\<^verbatim>\<open>sep.join(xs)\<close>.\<close>

fun join :: "string \<Rightarrow> string list \<Rightarrow> string" where
  "join sep [] = []"
| "join sep [x] = x"
| "join sep (x # y # ys) = x @ sep @ join sep (y # ys)"

text \<open>
  \<^verbatim>\<open>s.split(sep)\<close> for a non-empty separator: the occurrences of \<open>sep\<close> are found from
  the left and do not overlap. The source only splits on the constants \<^verbatim>\<open>" -> "\<close>,
  \<^verbatim>\<open>","\<close> and \<^verbatim>\<open>"="\<close>. \<open>cur\<close> is the piece being read.
\<close>

fun split_from :: "string \<Rightarrow> string \<Rightarrow> string \<Rightarrow> string list" where
  "split_from sep cur [] = [cur]"
| "split_from sep cur (c # cs) =
     (if sep \<noteq> [] \<and> prefix sep (c # cs)
      then cur # split_from sep [] (drop (length sep) (c # cs))
      else split_from sep (cur @ [c]) cs)"

definition split :: "string \<Rightarrow> string \<Rightarrow> string list" where
  "split sep s = split_from sep [] s"

text \<open>
  \<^verbatim>\<open>repr\<close> of a string: the quote is the double quote when the string holds a single
  quote and no double quote, the single quote otherwise; the quote and the backslash are
  escaped, tab, newline and carriage return have their letters, the other characters that
  are not printable are written \<^verbatim>\<open>\xhh\<close>.
\<close>

definition repr_quote :: "string \<Rightarrow> char" where
  "repr_quote s = (if CHR 0x27 \<in> set s \<and> CHR 0x22 \<notin> set s then CHR 0x22 else CHR 0x27)"

definition hex_digit :: "nat \<Rightarrow> char" where
  "hex_digit n = ''0123456789abcdef'' ! (n mod 16)"

definition repr_char :: "char \<Rightarrow> char \<Rightarrow> string" where
  "repr_char q c =
     (if c = q \<or> c = CHR 0x5C then [CHR 0x5C, c]
      else if c = CHR 0x09 then [CHR 0x5C, CHR ''t'']
      else if c = CHR 0x0A then [CHR 0x5C, CHR ''n'']
      else if c = CHR 0x0D then [CHR 0x5C, CHR ''r'']
      else if (of_char c :: nat) < 32 \<or> (127 \<le> (of_char c :: nat) \<and> (of_char c :: nat) \<le> 160) \<or>
              (of_char c :: nat) = 173
      then [CHR 0x5C, CHR ''x'', hex_digit ((of_char c :: nat) div 16), hex_digit (of_char c :: nat)]
      else [c])"

definition repr :: "string \<Rightarrow> string" where
  "repr s = (let q = repr_quote s in [q] @ concat (map (repr_char q) s) @ [q])"

text \<open>\<^verbatim>\<open>str(v)\<close> of an attribute value, as the f-string \<^verbatim>\<open>f'{k}={v}'\<close> formats it.\<close>

fun str :: "attr_value \<Rightarrow> string" where
  "str (Scalar s) = s"
| "str (Multi xs) = ''['' @ join '', '' (map repr xs) @ '']''"

text \<open>
  The character classes of the regular expressions, for strings of code points below 256
  (a \<open>char\<close> is the code point): \<^verbatim>\<open>\w\<close> is a letter, a digit or the underscore, where
  letters and digits are those of Unicode; \<^verbatim>\<open>\s\<close>, which is also the white space that
  \<^verbatim>\<open>strip()\<close> removes, is one of \<^verbatim>\<open>\t \n \v \f \r\<close>, the four separators \<^verbatim>\<open>\x1c\<close> to
  \<^verbatim>\<open>\x1f\<close>, the space, \<^verbatim>\<open>\x85\<close> and \<^verbatim>\<open>\xa0\<close>.
\<close>

definition is_word_char :: "char \<Rightarrow> bool" where
  "is_word_char c =
     (let n = (of_char c :: nat)
      in (48 \<le> n \<and> n \<le> 57) \<or> (65 \<le> n \<and> n \<le> 90) \<or> n = 95 \<or> (97 \<le> n \<and> n \<le> 122) \<or>
         n = 170 \<or> n = 178 \<or> n = 179 \<or> n = 181 \<or> n = 185 \<or> n = 186 \<or>
         (188 \<le> n \<and> n \<le> 190) \<or> (192 \<le> n \<and> n \<le> 214) \<or> (216 \<le> n \<and> n \<le> 246) \<or>
         248 \<le> n)"

definition is_space :: "char \<Rightarrow> bool" where
  "is_space c =
     (let n = (of_char c :: nat)
      in (9 \<le> n \<and> n \<le> 13) \<or> (28 \<le> n \<and> n \<le> 32) \<or> n = 133 \<or> n = 160)"

section \<open>Element descriptor and path builder\<close>

definition element_to_string :: "element \<Rightarrow> string" where
  "element_to_string element =
     el_name element @ '' '' @ join '' '' (map (\<lambda>(k, v). k @ ''='' @ str v) (el_attrs element))"

text \<open>
  The loop \<^verbatim>\<open>while element and element.name\<close>: a tag is always truthy, \<^verbatim>\<open>None\<close> and
  the empty name are not. \<open>path_parts\<close> is the list the loop appends to.
\<close>

fun path_parts :: "element \<Rightarrow> string list" where
  "path_parts (Element n a par) =
     (if n = [] then []
      else element_to_string (Element n a par) #
           (case par of None \<Rightarrow> [] | Some p \<Rightarrow> path_parts p))"

definition generate_element_path :: "element \<Rightarrow> string" where
  "generate_element_path element = join '' -> '' (rev (path_parts element))"

section \<open>The parsed document\<close>

text \<open>
  The \<^verbatim>\<open>BeautifulSoup\<close> object is the root of the tree: its name is \<^verbatim>\<open>[document]\<close>,
  it has no attributes and no parent. \<open>html\<close> below is the list of its children, the
  result of parsing the markup.
\<close>

definition soup_element :: element where
  "soup_element = Element ''[document]'' [] None"

text \<open>
  \<^verbatim>\<open>soup.find_all()\<close>: every tag below the root, in document order (a tag before its
  descendants, siblings left to right); strings are not tags.
\<close>

fun find_all_node :: "element \<Rightarrow> node \<Rightarrow> element list"
  and find_all_nodes :: "element \<Rightarrow> node list \<Rightarrow> element list" where
  "find_all_node par (NavigableString s) = []"
| "find_all_node par (Tag n a cs) = Element n a (Some par) # find_all_nodes (Element n a (Some par)) cs"
| "find_all_nodes par [] = []"
| "find_all_nodes par (c # cs) = find_all_node par c @ find_all_nodes par cs"

definition find_all :: "node list \<Rightarrow> element list" where
  "find_all html = find_all_nodes soup_element html"

text \<open>The parser gives every tag a non-empty name.\<close>

fun named_node :: "node \<Rightarrow> bool" where
  "named_node (NavigableString s) = True"
| "named_node (Tag n a cs) = (n \<noteq> [] \<and> list_all named_node cs)"

text \<open>
  The ancestors of an element, nearest first, and its ancestor depth: the number of
  ancestors that are not the root of the tree (the root is the one without a parent).
\<close>

fun ancestors :: "element \<Rightarrow> element list" where
  "ancestors (Element n a None) = []"
| "ancestors (Element n a (Some p)) = p # ancestors p"

definition ancestor_depth :: "element \<Rightarrow> nat" where
  "ancestor_depth e = length (filter (\<lambda>p. el_parent p \<noteq> None) (ancestors e))"

section \<open>Vectorizer, cosine similarity and argmax\<close>

text \<open>
  The numerical library is outside the repository; what the matcher uses of it is modelled
  here.
\<close>

text \<open>\<^verbatim>\<open>str.lower()\<close> on one character.\<close>

definition lower_char :: "char \<Rightarrow> char" where
  "lower_char c =
     (let n = (of_char c :: nat)
      in if (65 \<le> n \<and> n \<le> 90) \<or> (192 \<le> n \<and> n \<le> 222 \<and> n \<noteq> 215) then char_of (n + 32)
         else c)"

text \<open>
  A fitted \<^verbatim>\<open>CountVectorizer()\<close>, as \<^verbatim>\<open>get_most_similar_element\<close> builds it with the
  default parameters, is its vocabulary, the terms in column order. Its analyzer lowercases
  the text and takes the matches of the token pattern \<^verbatim>\<open>\b\w\w+\b\<close>: the maximal runs
  of word characters that are at least two characters long. \<open>cur\<close> is the run being read.
\<close>

datatype vectorizer = CountVectorizer (vocabulary: "string list")

fun tokens_from :: "string \<Rightarrow> string \<Rightarrow> string list" where
  "tokens_from cur [] = (if 2 \<le> length cur then [cur] else [])"
| "tokens_from cur (c # cs) =
     (if is_word_char c then tokens_from (cur @ [c]) cs
      else (if 2 \<le> length cur then [cur] else []) @ tokens_from [] cs)"

definition analyze :: "string \<Rightarrow> string list" where
  "analyze doc = tokens_from [] (map lower_char doc)"

text \<open>
  \<^verbatim>\<open>vectorizer.transform(docs)\<close>: one row of term counts per document; terms outside the
  vocabulary are dropped. An empty vocabulary raises \<^verbatim>\<open>ValueError\<close>.
\<close>

definition count_vector :: "vectorizer \<Rightarrow> string \<Rightarrow> nat list" where
  "count_vector v doc = map (count_list (analyze doc)) (vocabulary v)"

definition transform :: "vectorizer \<Rightarrow> string list \<Rightarrow> error + nat list list" where
  "transform v docs =
     (if vocabulary v = [] then Inl ValueError else Inr (map (count_vector v) docs))"

text \<open>
  The library computes in IEEE double precision. \<open>fl\<close> rounds a real number to the nearest
  double: a significand of 53 bits, ties to the even significand. The range of the exponent
  is not modelled (no infinity, no subnormal number); the counts of a document are far from
  it. An operation on doubles is the exact operation followed by \<open>fl\<close>; \<open>of_count\<close> is the
  conversion of an integer count.
\<close>

definition round_half_even :: "real \<Rightarrow> int" where
  "round_half_even x =
     (let f = \<lfloor>x\<rfloor>
      in if x - of_int f < 1 / 2 then f
         else if 1 / 2 < x - of_int f then f + 1
         else if even f then f else f + 1)"

definition fl :: "real \<Rightarrow> real" where
  "fl x =
     (if x = 0 then 0
      else let u = 2 powr (of_int (\<lfloor>log 2 \<bar>x\<bar>\<rfloor> - 52))
           in of_int (round_half_even (x / u)) * u)"

definition fadd :: "real \<Rightarrow> real \<Rightarrow> real" where
  "fadd a b = fl (a + b)"

definition fmul :: "real \<Rightarrow> real \<Rightarrow> real" where
  "fmul a b = fl (a * b)"

definition fdiv :: "real \<Rightarrow> real \<Rightarrow> real" where
  "fdiv a b = fl (a / b)"

definition fsqrt :: "real \<Rightarrow> real" where
  "fsqrt a = fl (sqrt a)"

definition of_count :: "nat \<Rightarrow> real" where
  "of_count n = fl (real n)"

text \<open>
  The rows are sparse: a row of counts is stored as its non-zero entries, each with its
  column, in the order of the columns.
\<close>

definition sparse_row :: "nat list \<Rightarrow> (nat \<times> real) list" where
  "sparse_row counts =
     map (\<lambda>(j, c). (j, of_count c)) (filter (\<lambda>(j, c). c \<noteq> 0) (enumerate 0 counts))"

text \<open>
  \<^verbatim>\<open>normalize\<close> of a sparse row: the squares of the stored entries are added from the
  left; a row whose sum is 0 is left as it is, otherwise every entry is divided by the square
  root of the sum.
\<close>

definition sum_squares :: "(nat \<times> real) list \<Rightarrow> real" where
  "sum_squares row = foldl (\<lambda>s (j, a). fadd s (fmul a a)) 0 row"

definition normalize_row :: "(nat \<times> real) list \<Rightarrow> (nat \<times> real) list" where
  "normalize_row row =
     (if sum_squares row = 0 then row
      else map (\<lambda>(j, a). (j, fdiv a (fsqrt (sum_squares row)))) row)"

text \<open>
  One entry of the sparse matrix product \<open>X Y\<^sup>T\<close>: the products of the entries that both
  rows store in the same column are added from the left, in the order of the columns of
  the row of \<open>X\<close>.
\<close>

definition dot :: "(nat \<times> real) list \<Rightarrow> (nat \<times> real) list \<Rightarrow> real" where
  "dot x y =
     foldl (\<lambda>s (j, a). case map_of y j of None \<Rightarrow> s | Some b \<Rightarrow> fadd s (fmul a b)) 0 x"

text \<open>
  \<^verbatim>\<open>cosine_similarity(X, Y)\<close> converts the counts to doubles, normalises every row of \<open>X\<close>
  and of \<open>Y\<close> and returns the dense matrix of the products of the rows of \<open>X\<close> with the
  rows of \<open>Y\<close>. It raises \<^verbatim>\<open>ValueError\<close> when either argument has no row.
\<close>

definition cosine_similarity :: "nat list list \<Rightarrow> nat list list \<Rightarrow> error + real list list" where
  "cosine_similarity X Y =
     (if X = [] \<or> Y = [] then Inl ValueError
      else Inr (map (\<lambda>x. map (\<lambda>y. dot (normalize_row (sparse_row x)) (normalize_row (sparse_row y))) Y) X))"

text \<open>
  \<^verbatim>\<open>row.argmax()\<close>: the index of the first occurrence of the maximum; \<^verbatim>\<open>ValueError\<close> on an
  empty row. \<open>argmax_from best_i best i xs\<close> scans \<open>xs\<close>, whose first entry has index \<open>i\<close>.
\<close>

fun argmax_from :: "nat \<Rightarrow> real \<Rightarrow> nat \<Rightarrow> real list \<Rightarrow> nat" where
  "argmax_from best_i best i [] = best_i"
| "argmax_from best_i best i (x # xs) =
     (if best < x then argmax_from i x (Suc i) xs else argmax_from best_i best (Suc i) xs)"

fun argmax :: "real list \<Rightarrow> error + nat" where
  "argmax [] = Inl ValueError"
| "argmax (x # xs) = Inr (argmax_from 0 x 1 xs)"

text \<open>\<^verbatim>\<open>xs[i]\<close> for an index that is not negative.\<close>

definition getitem :: "'a list \<Rightarrow> nat \<Rightarrow> error + 'a" where
  "getitem xs i = (if i < length xs then Inr (xs ! i) else Inl IndexError)"

section \<open>Similarity matcher\<close>

text \<open>
  The argument \<open>html\<close> is the markup as the parser returns it: the children of the
  \<^verbatim>\<open>BeautifulSoup\<close> object. Every call of the library that can raise is a case of the
  definition.
\<close>

definition find_most_similar_element_path :: "node list \<Rightarrow> string \<Rightarrow> vectorizer \<Rightarrow> error + string" where
  "find_most_similar_element_path html path vectorizer =
     (let all_elements = find_all html;
          all_elements_paths = map generate_element_path all_elements
      in case transform vectorizer [path] of Inl e \<Rightarrow> Inl e | Inr path_vector \<Rightarrow>
         (case transform vectorizer all_elements_paths of Inl e \<Rightarrow> Inl e | Inr paths_vectors \<Rightarrow>
         (case cosine_similarity path_vector paths_vectors of Inl e \<Rightarrow> Inl e | Inr similarities \<Rightarrow>
         (case getitem similarities 0 of Inl e \<Rightarrow> Inl e | Inr row \<Rightarrow>
         (case argmax row of Inl e \<Rightarrow> Inl e | Inr most_similar_index \<Rightarrow>
            getitem all_elements_paths most_similar_index)))))"

text \<open>
  The loop of \<^verbatim>\<open>get_most_similar_paths\<close>; an exception of the matcher leaves the loop,
  an empty result string is not appended.
\<close>

fun most_similar_loop :: "node list \<Rightarrow> vectorizer \<Rightarrow> string list \<Rightarrow> string list \<Rightarrow> error + string list" where
  "most_similar_loop html vectorizer most_similar_paths [] = Inr most_similar_paths"
| "most_similar_loop html vectorizer most_similar_paths (path # paths) =
     (case find_most_similar_element_path html path vectorizer of
        Inl e \<Rightarrow> Inl e
      | Inr most_similar_path \<Rightarrow>
          most_similar_loop html vectorizer
            (if most_similar_path \<noteq> [] then most_similar_paths @ [most_similar_path]
             else most_similar_paths) paths)"

definition get_most_similar_paths :: "node list \<Rightarrow> string list \<Rightarrow> vectorizer \<Rightarrow> error + string list" where
  "get_most_similar_paths html paths vectorizer = most_similar_loop html vectorizer [] paths"

text \<open>
  The entry of the similarity matrix for a target path and a candidate path: the double that
  \<^verbatim>\<open>cosine_similarity\<close> computes from their rows of counts.
\<close>

definition path_similarity :: "vectorizer \<Rightarrow> string \<Rightarrow> string \<Rightarrow> real" where
  "path_similarity v path cand =
     dot (normalize_row (sparse_row (count_vector v path)))
         (normalize_row (sparse_row (count_vector v cand)))"

section \<open>Attribute codec\<close>

text \<open>
  \<^verbatim>\<open>s.strip(chars)\<close> and \<^verbatim>\<open>s.strip()\<close>, which removes white space.
\<close>

definition strip_chars :: "string \<Rightarrow> string \<Rightarrow> string" where
  "strip_chars chars s =
     rev (dropWhile (\<lambda>c. c \<in> set chars) (rev (dropWhile (\<lambda>c. c \<in> set chars) s)))"

definition strip :: "string \<Rightarrow> string" where
  "strip s = rev (dropWhile is_space (rev (dropWhile is_space s)))"

text \<open>
  \<^verbatim>\<open>re.split(r'\s+', s)\<close>: the pieces between the maximal runs of white space.
\<close>

function re_split_from :: "string \<Rightarrow> string \<Rightarrow> string list" where
  "re_split_from cur [] = [cur]"
| "re_split_from cur (c # cs) =
     (if is_space c then cur # re_split_from [] (dropWhile is_space cs)
      else re_split_from (cur @ [c]) cs)"
  by pat_completeness auto
termination
  by (relation "measure (\<lambda>(cur, s). length s)") (auto simp: le_imp_less_Suc length_dropWhile_le)

definition re_split_spaces :: "string \<Rightarrow> string list" where
  "re_split_spaces s = re_split_from [] s"

text \<open>
  The pattern of \<^verbatim>\<open>split_attributes_improved\<close>,
  \<^verbatim>\<open>(\w+(?:-\w+)*=[^\s\[]*(?:\[[^\]]*\])?)\<close>, matched at the start of a string. All its
  quantifiers are greedy and none of them can give a character back with success: a shorter
  run of word characters is followed by a word character, where neither \<^verbatim>\<open>-\<close> nor
  \<^verbatim>\<open>=\<close> matches, and one hyphenated word less is followed by \<^verbatim>\<open>-\<close>, where \<^verbatim>\<open>=\<close> does
  not match; the value and the bracketed list end the pattern. So the match is the one of
  the maximal runs. \<open>hyphen_words\<close> is \<^verbatim>\<open>(?:-\w+)*\<close>: what it matches and what is left.
\<close>

function hyphen_words :: "string \<Rightarrow> string \<times> string" where
  "hyphen_words [] = ([], [])"
| "hyphen_words (c # cs) =
     (if c = CHR ''-'' \<and> takeWhile is_word_char cs \<noteq> []
      then (case hyphen_words (dropWhile is_word_char cs) of
              (m, r) \<Rightarrow> (c # takeWhile is_word_char cs @ m, r))
      else ([], c # cs))"
  by pat_completeness auto
termination
  by (relation "measure length") (auto simp: le_imp_less_Suc length_dropWhile_le)

text \<open>
  The parts of a match: the key \<^verbatim>\<open>\w+(?:-\w+)*\<close>, the value \<^verbatim>\<open>[^\s\[]*\<close> after the
  \<^verbatim>\<open>=\<close>, the bracketed list \<^verbatim>\<open>\[[^\]]*\]\<close> when there is one (it needs a closing
  bracket), and the rest of the string.
\<close>

definition bracket_part :: "string \<Rightarrow> string \<times> string" where
  "bracket_part s =
     (case s of
        [] \<Rightarrow> ([], s)
      | d # r \<Rightarrow>
          if d = CHR ''['' \<and> dropWhile (\<lambda>c. c \<noteq> CHR '']'') r \<noteq> []
          then (d # takeWhile (\<lambda>c. c \<noteq> CHR '']'') r @ '']'', tl (dropWhile (\<lambda>c. c \<noteq> CHR '']'') r))
          else ([], s))"

definition token_parts :: "string \<Rightarrow> (string \<times> string \<times> string \<times> string) option" where
  "token_parts s =
     (if takeWhile is_word_char s = [] then None
      else case hyphen_words (dropWhile is_word_char s) of
        (m, r) \<Rightarrow>
          (case r of
             [] \<Rightarrow> None
           | c # r1 \<Rightarrow>
               if c \<noteq> CHR ''='' then None
               else (case bracket_part (dropWhile (\<lambda>c. \<not> is_space c \<and> c \<noteq> CHR ''['') r1) of
                       (b, rest) \<Rightarrow>
                         Some (takeWhile is_word_char s @ m,
                               takeWhile (\<lambda>c. \<not> is_space c \<and> c \<noteq> CHR ''['') r1, b, rest))))"

definition match_token :: "string \<Rightarrow> (string \<times> string) option" where
  "match_token s =
     (case token_parts s of
        None \<Rightarrow> None
      | Some (k, v, b, rest) \<Rightarrow> Some (k @ ''='' @ v @ b, rest))"

lemma hyphen_words_append: "hyphen_words s = (m, r) \<Longrightarrow> m @ r = s"
proof (induction s arbitrary: m r rule: hyphen_words.induct)
  case 1
  then show ?case by simp
next
  case (2 c cs)
  show ?case
  proof (cases "c = CHR ''-'' \<and> takeWhile is_word_char cs \<noteq> []")
    case True
    obtain m' r' where h: "hyphen_words (dropWhile is_word_char cs) = (m', r')"
      by (cases "hyphen_words (dropWhile is_word_char cs)")
    from "2.IH" [OF True h] have "m' @ r' = dropWhile is_word_char cs" .
    moreover from "2.prems" True h have "m = c # takeWhile is_word_char cs @ m'" "r = r'"
      by simp_all
    ultimately show ?thesis by simp
  next
    case False
    with "2.prems" show ?thesis by auto
  qed
qed

lemma bracket_part_append: "bracket_part s = (b, rest) \<Longrightarrow> b @ rest = s"
proof (cases s)
  case Nil
  then show "bracket_part s = (b, rest) \<Longrightarrow> ?thesis" by (simp add: bracket_part_def)
next
  case (Cons d r)
  assume a: "bracket_part s = (b, rest)"
  show ?thesis
  proof (cases "d = CHR ''['' \<and> dropWhile (\<lambda>c. c \<noteq> CHR '']'') r \<noteq> []")
    case True
    then have "hd (dropWhile (\<lambda>c. c \<noteq> CHR '']'') r) = CHR '']''"
      using hd_dropWhile [of "\<lambda>c. c \<noteq> CHR '']''" r] by simp
    with True have "dropWhile (\<lambda>c. c \<noteq> CHR '']'') r = CHR '']'' # tl (dropWhile (\<lambda>c. c \<noteq> CHR '']'') r)"
      by (cases "dropWhile (\<lambda>c. c \<noteq> CHR '']'') r") simp_all
    then have "takeWhile (\<lambda>c. c \<noteq> CHR '']'') r @ CHR '']'' # tl (dropWhile (\<lambda>c. c \<noteq> CHR '']'') r) = r"
      using takeWhile_dropWhile_id [of "\<lambda>c. c \<noteq> CHR '']''" r] by simp
    with a True Cons show ?thesis by (auto simp: bracket_part_def)
  next
    case False
    with a Cons show ?thesis by (auto simp: bracket_part_def)
  qed
qed

lemma token_parts_append:
  assumes "token_parts s = Some (k, v, b, rest)"
  shows "k @ ''='' @ v @ b @ rest = s"
proof -
  from assms have w: "takeWhile is_word_char s \<noteq> []"
    by (auto simp: token_parts_def split: if_splits)
  obtain m r where h: "hyphen_words (dropWhile is_word_char s) = (m, r)"
    by (cases "hyphen_words (dropWhile is_word_char s)")
  from assms w h obtain r1 where r: "r = CHR ''='' # r1"
    by (auto simp: token_parts_def split: list.splits if_splits)
  let ?P = "\<lambda>c. \<not> is_space c \<and> c \<noteq> CHR ''[''"
  from assms w h r have parts: "k = takeWhile is_word_char s @ m" "v = takeWhile ?P r1"
    "bracket_part (dropWhile ?P r1) = (b, rest)"
    by (auto simp: token_parts_def split: prod.splits)
  from bracket_part_append [OF parts(3)] have "v @ b @ rest = r1"
    using parts(2) takeWhile_dropWhile_id [of ?P r1] by simp
  moreover from hyphen_words_append [OF h] r
  have "takeWhile is_word_char s @ m @ CHR ''='' # r1 = s"
    using takeWhile_dropWhile_id [of is_word_char s] by simp
  ultimately show ?thesis using parts(1) by simp
qed

lemma match_token_shorter:
  "match_token s = Some (tok, rest) \<Longrightarrow> length rest < length s"
proof -
  assume "match_token s = Some (tok, rest)"
  then obtain k v b where p: "token_parts s = Some (k, v, b, rest)"
    by (auto simp: match_token_def split: option.splits)
  from token_parts_append [OF p] have "length s = length (k @ ''='' @ v @ b @ rest)" by simp
  then show ?thesis by simp
qed

text \<open>
  \<^verbatim>\<open>re.findall(pattern, attr_str)\<close>: the matches from the left, each search starting where
  the match before it ended, one character further where no match starts.
\<close>

function findall_tokens :: "string \<Rightarrow> string list" where
  "findall_tokens [] = []"
| "findall_tokens (c # cs) =
     (case match_token (c # cs) of
        None \<Rightarrow> findall_tokens cs
      | Some (tok, rest) \<Rightarrow> tok # findall_tokens rest)"
  by pat_completeness auto
termination
  by (relation "measure length") (auto dest: match_token_shorter)

definition split_attributes_improved :: "string \<Rightarrow> string list" where
  "split_attributes_improved attr_str = findall_tokens attr_str"

text \<open>
  The pattern of the bracket branch, \<^verbatim>\<open>(\w+)=\[(.*?)\]|(\w+)=(\S+)\<close>, matched at the start
  of a string; the result is the four groups and the rest of the string. The first
  alternative needs a \<^verbatim>\<open>]\<close> before the next newline (\<^verbatim>\<open>.\<close> does not match a newline) and
  its lazy group ends at the first one; the second alternative takes the maximal run of
  characters that are not white space, at least one.
\<close>

definition match_pair :: "string \<Rightarrow> ((string \<times> string \<times> string \<times> string) \<times> string) option" where
  "match_pair s =
     (let w = takeWhile is_word_char s
      in if w = [] then None
         else case dropWhile is_word_char s of
           [] \<Rightarrow> None
         | c # r1 \<Rightarrow>
             if c \<noteq> CHR ''='' then None
             else let body = takeWhile (\<lambda>c. c \<noteq> CHR '']'' \<and> c \<noteq> CHR 0x0A) (tl r1);
                      after = dropWhile (\<lambda>c. c \<noteq> CHR '']'' \<and> c \<noteq> CHR 0x0A) (tl r1)
                  in if r1 \<noteq> [] \<and> hd r1 = CHR ''['' \<and> after \<noteq> [] \<and> hd after = CHR '']''
                     then Some ((w, body, [], []), tl after)
                     else if takeWhile (\<lambda>c. \<not> is_space c) r1 = [] then None
                     else Some (([], [], w, takeWhile (\<lambda>c. \<not> is_space c) r1),
                                dropWhile (\<lambda>c. \<not> is_space c) r1))"

lemma match_pair_shorter:
  assumes "match_pair s = Some (g, rest)"
  shows "length rest < length s"
proof -
  let ?Q = "\<lambda>c. c \<noteq> CHR '']'' \<and> c \<noteq> CHR 0x0A"
  from assms obtain r1 where d: "dropWhile is_word_char s = CHR ''='' # r1"
    by (auto simp: match_pair_def Let_def split: list.splits if_splits)
  have "length (dropWhile is_word_char s) \<le> length s" by (rule length_dropWhile_le)
  with d have r1: "length r1 < length s" by simp
  have "length (tl (dropWhile ?Q (tl r1))) \<le> length r1"
    using length_dropWhile_le [of ?Q "tl r1"] by simp
  moreover have "length (dropWhile (\<lambda>c. \<not> is_space c) r1) \<le> length r1"
    by (rule length_dropWhile_le)
  moreover from assms d have "rest = tl (dropWhile ?Q (tl r1)) \<or> rest = dropWhile (\<lambda>c. \<not> is_space c) r1"
    by (auto simp: match_pair_def Let_def split: if_splits)
  ultimately show ?thesis using r1 by auto
qed

function findall_pairs :: "string \<Rightarrow> (string \<times> string \<times> string \<times> string) list" where
  "findall_pairs [] = []"
| "findall_pairs (c # cs) =
     (case match_pair (c # cs) of
        None \<Rightarrow> findall_pairs cs
      | Some (g, rest) \<Rightarrow> g # findall_pairs rest)"
  by pat_completeness auto
termination
  by (relation "measure length") (auto dest: match_pair_shorter)

text \<open>
  The body of the loop over \<^verbatim>\<open>attr_pairs\<close>: the key and the value that one tuple of
  groups stores, and the loop.
\<close>

fun pair_entry :: "string \<times> string \<times> string \<times> string \<Rightarrow> string \<times> attr_value" where
  "pair_entry (g1, g2, g3, g4) =
     (if g1 \<noteq> [] then (g1, Multi (map (strip_chars [CHR '' '', CHR 0x22, CHR ''['', CHR '']'', CHR 0x27])
                                   (split '','' g2)))
      else (g3, Scalar (strip_chars [CHR '' '', CHR 0x22, CHR 0x27] g4)))"

fun store_pairs :: "attrs \<Rightarrow> (string \<times> string \<times> string \<times> string) list \<Rightarrow> attrs" where
  "store_pairs attrs [] = attrs"
| "store_pairs attrs (attr # attr_pairs) =
     store_pairs (AList.update (fst (pair_entry attr)) (snd (pair_entry attr)) attrs) attr_pairs"

text \<open>
  \<^verbatim>\<open>key, value = attr.split('=', 1)\<close> for an \<open>attr\<close> that contains \<^verbatim>\<open>=\<close>, and the loop
  over \<^verbatim>\<open>attrs_list\<close> in the branch without a list.
\<close>

definition key_of :: "string \<Rightarrow> string" where
  "key_of attr = takeWhile (\<lambda>c. c \<noteq> CHR ''='') attr"

definition value_of :: "string \<Rightarrow> string" where
  "value_of attr = tl (dropWhile (\<lambda>c. c \<noteq> CHR ''='') attr)"

fun store_plain :: "attrs \<Rightarrow> string list \<Rightarrow> attrs" where
  "store_plain attrs [] = attrs"
| "store_plain attrs (attr # attrs_list) =
     store_plain
       (if CHR ''='' \<in> set attr
        then AList.update (key_of attr)
               (Scalar (strip_chars [CHR '' '', CHR 0x22, CHR 0x27] (value_of attr))) attrs
        else attrs)
       attrs_list"

text \<open>The loop over \<^verbatim>\<open>attributes\<close>; the bracket branch searches the whole \<^verbatim>\<open>attr_str\<close>.\<close>

fun parse_tokens :: "string \<Rightarrow> attrs \<Rightarrow> string list \<Rightarrow> attrs" where
  "parse_tokens attr_str attrs [] = attrs"
| "parse_tokens attr_str attrs (attribute # attributes) =
     parse_tokens attr_str
       (if CHR ''['' \<in> set attribute then store_pairs attrs (findall_pairs attr_str)
        else store_plain attrs (re_split_spaces (strip attribute)))
       attributes"

definition parse_attributes :: "string \<Rightarrow> attrs" where
  "parse_attributes attr_str = parse_tokens attr_str [] (split_attributes_improved attr_str)"

text \<open>
  Two notions for the properties of the codec: the characters of a key of the tokenizer, and
  a token without a list: a key, \<^verbatim>\<open>=\<close> and a value free of white space and brackets.
\<close>

definition key_char :: "char \<Rightarrow> bool" where
  "key_char c = (is_word_char c \<or> c = CHR ''-'')"

definition plain_token :: "string \<Rightarrow> bool" where
  "plain_token t = (\<exists>k v. t = k @ ''='' @ v \<and> k \<noteq> [] \<and> list_all key_char k \<and>
                      list_all (\<lambda>c. \<not> is_space c \<and> c \<noteq> CHR ''['') v)"

section \<open>Reverse locator\<close>

text \<open>\<^verbatim>\<open>sub in s\<close> for strings.\<close>

fun contains :: "string \<Rightarrow> string \<Rightarrow> bool" where
  "contains sub [] = (sub = [])"
| "contains sub (c # cs) = (prefix sub (c # cs) \<or> contains sub cs)"

text \<open>
  \<^verbatim>\<open>re.match(r'(\w+)(.*)', part)\<close>: the two groups, or \<open>None\<close> when \<open>part\<close> does not
  start with a word character. \<^verbatim>\<open>.\<close> does not match a newline.
\<close>

definition match_tag :: "string \<Rightarrow> (string \<times> string) option" where
  "match_tag part =
     (if takeWhile is_word_char part = [] then None
      else Some (takeWhile is_word_char part,
                 takeWhile (\<lambda>c. c \<noteq> CHR 0x0A) (dropWhile is_word_char part)))"

text \<open>
  \<^verbatim>\<open>current_element.find(tag, attrs)\<close> of the tree library: the first tag below the
  current element, in document order, whose name is \<open>tag\<close> and whose attributes match every
  entry of \<open>attrs\<close>. A string matches an equal attribute value or one of the values of a
  multi-valued attribute (or their concatenation with spaces); the empty string also matches
  a missing attribute; a list matches when one of its strings does.
\<close>

fun matches_string :: "attr_value option \<Rightarrow> string \<Rightarrow> bool" where
  "matches_string None match_against = (match_against = [])"
| "matches_string (Some (Scalar markup)) match_against = (markup = match_against)"
| "matches_string (Some (Multi markup)) match_against =
     (match_against \<in> set markup \<or> join '' '' markup = match_against)"

fun matches :: "attr_value option \<Rightarrow> attr_value \<Rightarrow> bool" where
  "matches markup (Scalar match_against) = matches_string markup match_against"
| "matches None (Multi match_against) = (match_against = [])"
| "matches (Some markup) (Multi match_against) =
     list_ex (matches_string (Some markup)) match_against"

fun search_tag :: "string \<Rightarrow> attrs \<Rightarrow> node \<Rightarrow> bool" where
  "search_tag name attrs (NavigableString s) = False"
| "search_tag name attrs (Tag n a cs) =
     (n = name \<and> list_all (\<lambda>(attr, match_against). matches (map_of a attr) match_against) attrs)"

fun find_node :: "string \<Rightarrow> attrs \<Rightarrow> node \<Rightarrow> node option"
  and find_nodes :: "string \<Rightarrow> attrs \<Rightarrow> node list \<Rightarrow> node option" where
  "find_node name attrs (NavigableString s) = None"
| "find_node name attrs (Tag n a cs) =
     (if search_tag name attrs (Tag n a cs) then Some (Tag n a cs) else find_nodes name attrs cs)"
| "find_nodes name attrs [] = None"
| "find_nodes name attrs (c # cs) =
     (case find_node name attrs c of Some found \<Rightarrow> Some found | None \<Rightarrow> find_nodes name attrs cs)"

fun find_descendant :: "node \<Rightarrow> string \<Rightarrow> attrs \<Rightarrow> node option" where
  "find_descendant (Tag n a cs) name attrs = find_nodes name attrs cs"
| "find_descendant (NavigableString s) name attrs = None"

text \<open>
  The body of the loop of \<^verbatim>\<open>find_element_by_path\<close> for a segment that does not contain
  \<^verbatim>\<open>[document]\<close>: the element \<^verbatim>\<open>found_element\<close>, and the loop itself. A tag is always
  truthy, so \<^verbatim>\<open>if found_element\<close> tests for \<^verbatim>\<open>None\<close>.
\<close>

definition found_element :: "node \<Rightarrow> string \<Rightarrow> node option" where
  "found_element current_element part =
     (let tag = (case match_tag part of None \<Rightarrow> [] | Some (g1, g2) \<Rightarrow> g1);
          attr_str = (case match_tag part of None \<Rightarrow> [] | Some (g1, g2) \<Rightarrow> strip g2);
          attrs = parse_attributes attr_str
      in find_descendant current_element tag attrs)"

fun walk :: "node \<Rightarrow> string list \<Rightarrow> node" where
  "walk current_element [] = current_element"
| "walk current_element (part # parts) =
     (if contains ''[document]'' part then walk current_element parts
      else case found_element current_element part of
             None \<Rightarrow> walk current_element parts
           | Some found \<Rightarrow> walk found parts)"

definition soup_node :: "node list \<Rightarrow> node" where
  "soup_node html = Tag ''[document]'' [] html"

definition find_element_by_path :: "node list \<Rightarrow> string \<Rightarrow> node" where
  "find_element_by_path html path = walk (soup_node html) (split '' -> '' path)"

section \<open>Path extractor\<close>

text \<open>The loop \<^verbatim>\<open>for key, value in rules_json.items(): paths.extend(value)\<close>.\<close>

fun extend_all :: "string list \<Rightarrow> (string \<times> string list) list \<Rightarrow> string list" where
  "extend_all paths [] = paths"
| "extend_all paths ((key, value) # items) = extend_all (paths @ value) items"

definition parse_rules_to_paths :: "(string \<times> string list) list \<Rightarrow> string list" where
  "parse_rules_to_paths rules_json = extend_all [] rules_json"

section \<open>Example documents\<close>

text \<open>The document \<^verbatim>\<open><html><body><h1 id="main">Hi</h1></body></html>\<close> and two of its elements.\<close>

definition scenario_html :: "node list" where
  "scenario_html =
     [Tag ''html'' [] [Tag ''body'' [] [Tag ''h1'' [(''id'', Scalar ''main'')] [NavigableString ''Hi'']]]]"

definition scenario_body :: element where
  "scenario_body = Element ''body'' [] (Some (Element ''html'' [] (Some soup_element)))"

definition scenario_h1 :: element where
  "scenario_h1 = Element ''h1'' [(''id'', Scalar ''main'')] (Some scenario_body)"

text \<open>The document \<^verbatim>\<open><div><div></div></div>\<close>.\<close>

definition nested_html :: "node list" where
  "nested_html = [Tag ''div'' [] [Tag ''div'' [] []]]"

text \<open>Three nested \<^verbatim>\<open><div id="a">\<close>.\<close>

definition triple_html :: "node list" where
  "triple_html =
     [Tag ''div'' [(''id'', Scalar ''a'')]
        [Tag ''div'' [(''id'', Scalar ''a'')] [Tag ''div'' [(''id'', Scalar ''a'')] []]]]"

section \<open>Properties of the path builder\<close>

lemma join_snoc: "join sep (xs @ [x]) = (if xs = [] then x else join sep xs @ sep @ x)"
  by (induction sep xs rule: join.induct) auto

lemma length_path_parts_named:
  "list_all (\<lambda>p. el_name p \<noteq> []) (e # ancestors e) \<Longrightarrow> length (path_parts e) = Suc (length (ancestors e))"
  by (induction e rule: ancestors.induct) auto

lemma path_parts_named:
  "list_all (\<lambda>p. el_name p \<noteq> []) (e # ancestors e) \<Longrightarrow> path_parts e = map element_to_string (e # ancestors e)"
  by (induction e rule: ancestors.induct) auto

lemma find_all_chain:
  "named_node nd \<Longrightarrow> e \<in> set (find_all_node par nd) \<Longrightarrow>
     \<exists>mid. e # ancestors e = mid @ par # ancestors par \<and> mid \<noteq> [] \<and> list_all (\<lambda>p. el_name p \<noteq> [] \<and> el_parent p \<noteq> None) mid"
  "list_all named_node nds \<Longrightarrow> e \<in> set (find_all_nodes par nds) \<Longrightarrow>
     \<exists>mid. e # ancestors e = mid @ par # ancestors par \<and> mid \<noteq> [] \<and> list_all (\<lambda>p. el_name p \<noteq> [] \<and> el_parent p \<noteq> None) mid"
proof (induction par nd and par nds arbitrary: e and e rule: find_all_node_find_all_nodes.induct)
  case (2 par n a cs)
  let ?t = "Element n a (Some par)"
  from "2.prems" have "e = ?t \<or> e \<in> set (find_all_nodes ?t cs)" by auto
  then show ?case
  proof
    assume "e = ?t"
    then have "e # ancestors e = [?t] @ par # ancestors par" by simp
    moreover from "2.prems" have "n \<noteq> []" by simp
    ultimately show ?thesis using \<open>e = ?t\<close> by fastforce
  next
    assume "e \<in> set (find_all_nodes ?t cs)"
    with "2.IH" "2.prems" obtain mid where
      m: "e # ancestors e = mid @ ?t # ancestors ?t" "mid \<noteq> []" "list_all (\<lambda>p. el_name p \<noteq> [] \<and> el_parent p \<noteq> None) mid"
      by auto
    from "2.prems" have "n \<noteq> []" by simp
    with m have "e # ancestors e = (mid @ [?t]) @ par # ancestors par \<and> mid @ [?t] \<noteq> [] \<and> list_all (\<lambda>p. el_name p \<noteq> [] \<and> el_parent p \<noteq> None) (mid @ [?t])"
      by simp
    then show ?thesis by blast
  qed
qed auto

lemma not_prefix_arrow:
  "CHR ''>'' \<notin> set x \<Longrightarrow> x \<noteq> [] \<Longrightarrow> \<not> prefix '' -> '' (x @ '' -> '' @ rest)"
proof (cases x)
  case Nil
  then show "x \<noteq> [] \<Longrightarrow> ?thesis" by simp
next
  case (Cons c x1)
  assume gt: "CHR ''>'' \<notin> set x"
  show ?thesis
  proof (cases x1)
    case Nil
    with Cons show ?thesis by simp
  next
    case c2: (Cons d x2)
    show ?thesis
    proof (cases x2)
      case Nil
      with Cons c2 show ?thesis by simp
    next
      case c3: (Cons d' x3)
      with Cons c2 gt show ?thesis by auto
    qed
  qed
qed

lemma not_prefix_arrow_end:
  "CHR ''>'' \<notin> set x \<Longrightarrow> \<not> prefix '' -> '' x"
  by (auto simp: prefix_def)

lemma split_from_skip:
  "\<not> prefix sep (c # cs) \<Longrightarrow> split_from sep cur (c # cs) = split_from sep (cur @ [c]) cs"
  by simp

lemma split_from_hit:
  "sep \<noteq> [] \<Longrightarrow> split_from sep cur (sep @ rest) = cur # split_from sep [] rest"
  by (cases sep) simp_all

lemma split_from_segment:
  "CHR ''>'' \<notin> set x \<Longrightarrow>
   split_from '' -> '' cur (x @ '' -> '' @ rest) = (cur @ x) # split_from '' -> '' [] rest"
proof (induction x arbitrary: cur)
  case Nil
  show ?case using split_from_hit [of "'' -> ''" cur rest] by simp
next
  case (Cons c x)
  have "\<not> prefix '' -> '' ((c # x) @ '' -> '' @ rest)"
    using Cons.prems by (intro not_prefix_arrow) simp_all
  then have np: "\<not> prefix '' -> '' (c # (x @ '' -> '' @ rest))"
    by simp
  have "split_from '' -> '' cur ((c # x) @ '' -> '' @ rest) =
        split_from '' -> '' cur (c # (x @ '' -> '' @ rest))"
    by (simp del: split_from.simps)
  also have "\<dots> = split_from '' -> '' (cur @ [c]) (x @ '' -> '' @ rest)"
    by (rule split_from_skip [OF np])
  also have "\<dots> = ((cur @ [c]) @ x) # split_from '' -> '' [] rest"
    using Cons.prems by (intro Cons.IH) simp
  finally show ?case by simp
qed

lemma split_from_last:
  "CHR ''>'' \<notin> set x \<Longrightarrow> split_from '' -> '' cur x = [cur @ x]"
proof (induction x arbitrary: cur)
  case Nil
  show ?case by simp
next
  case (Cons c x)
  have np: "\<not> prefix '' -> '' (c # x)"
    using Cons.prems by (intro not_prefix_arrow_end) simp
  have "split_from '' -> '' cur (c # x) = split_from '' -> '' (cur @ [c]) x"
    by (rule split_from_skip [OF np])
  also have "\<dots> = [(cur @ [c]) @ x]"
    using Cons.prems by (intro Cons.IH) simp
  finally show ?case by simp
qed

lemma split_join_arrow:
  "xs \<noteq> [] \<Longrightarrow> list_all (\<lambda>x. CHR ''>'' \<notin> set x) xs \<Longrightarrow> split '' -> '' (join '' -> '' xs) = xs"
proof (induction "'' -> ''" xs rule: join.induct)
  case 1
  then show ?case by simp
next
  case (2 x)
  then show ?case by (simp add: split_def split_from_last)
next
  case (3 x y ys)
  from "3.prems" have x: "CHR ''>'' \<notin> set x" and r: "list_all (\<lambda>x. CHR ''>'' \<notin> set x) (y # ys)"
    by simp_all
  have "split '' -> '' (join '' -> '' (x # y # ys)) =
        split_from '' -> '' [] (x @ '' -> '' @ join '' -> '' (y # ys))"
    by (simp only: split_def join.simps)
  also have "\<dots> = ([] @ x) # split_from '' -> '' [] (join '' -> '' (y # ys))"
    by (rule split_from_segment [OF x])
  also have "\<dots> = x # y # ys"
    using "3.hyps" r by (simp add: split_def)
  finally show ?case .
qed

lemma find_all_root_chain:
  assumes "list_all named_node html" and "e \<in> set (find_all html)"
  shows "\<exists>mid. e # ancestors e = mid @ [soup_element] \<and> mid \<noteq> [] \<and>
           list_all (\<lambda>p. el_name p \<noteq> [] \<and> el_parent p \<noteq> None) mid"
  using find_all_chain(2) [OF assms(1), of e soup_element] assms(2)
  by (simp add: find_all_def soup_element_def)

text \<open>
  C2, as the code has it: for an element of a parsed document at ancestor depth \<open>d\<close> (the
  root of the tree not counted), \<^verbatim>\<open>generate_element_path\<close> joins \<open>d + 2\<close> descriptors
  with \<^verbatim>\<open>" -> "\<close>: the descriptor \<^verbatim>\<open>"[document] "\<close> of the root first, then one per
  ancestor, then the element's own. The root has the name \<^verbatim>\<open>[document]\<close>, so the walk includes it and ends at its
  missing parent. When no descriptor contains the character \<^verbatim>\<open>>\<close>, splitting the path on
  \<^verbatim>\<open>" -> "\<close> gives back exactly these \<open>d + 2\<close> segments.
\<close>

theorem generate_element_path_segments:
  assumes "list_all named_node html" and "e \<in> set (find_all html)"
  shows "generate_element_path e = join '' -> '' (rev (map element_to_string (e # ancestors e))) \<and>
         length (e # ancestors e) = ancestor_depth e + 2 \<and>
         hd (rev (map element_to_string (e # ancestors e))) = ''[document] '' \<and>
         (list_all (\<lambda>p. CHR ''>'' \<notin> set (element_to_string p)) (e # ancestors e) \<longrightarrow>
            split '' -> '' (generate_element_path e) = rev (map element_to_string (e # ancestors e)))"
proof -
  from find_all_root_chain [OF assms] obtain mid where
    chain: "e # ancestors e = mid @ [soup_element]" and ne: "mid \<noteq> []" and
    mid: "list_all (\<lambda>p. el_name p \<noteq> [] \<and> el_parent p \<noteq> None) mid"
    by blast
  have named: "list_all (\<lambda>p. el_name p \<noteq> []) (e # ancestors e)"
    using mid unfolding chain by (simp add: soup_element_def list_all_iff)
  have path: "generate_element_path e = join '' -> '' (rev (map element_to_string (e # ancestors e)))"
    using path_parts_named [OF named] by (simp add: generate_element_path_def)
  from ne chain have anc: "ancestors e = tl mid @ [soup_element]"
    by (cases mid) simp_all
  have "filter (\<lambda>p. el_parent p \<noteq> None) (tl mid) = tl mid"
    using mid by (cases mid) (auto simp: list_all_iff)
  then have "ancestor_depth e = length (tl mid)"
    by (simp add: ancestor_depth_def anc soup_element_def)
  then have len: "length (e # ancestors e) = ancestor_depth e + 2"
    using ne unfolding chain by simp
  have first: "hd (rev (map element_to_string (e # ancestors e))) = ''[document] ''"
    unfolding chain by (simp add: element_to_string_def soup_element_def)
  have sp: "split '' -> '' (generate_element_path e) = rev (map element_to_string (e # ancestors e))"
    if "list_all (\<lambda>p. CHR ''>'' \<notin> set (element_to_string p)) (e # ancestors e)"
  proof -
    from that have "list_all (\<lambda>x. CHR ''>'' \<notin> set x) (rev (map element_to_string (e # ancestors e)))"
      by (simp add: list_all_iff)
    then show ?thesis
      unfolding path by (intro split_join_arrow) simp_all
  qed
  from path len first sp show ?thesis by blast
qed

lemma scenario_find_all:
  "find_all scenario_html = [Element ''html'' [] (Some soup_element), scenario_body, scenario_h1]"
  by (simp add: find_all_def scenario_html_def scenario_body_def scenario_h1_def)

lemma scenario_path:
  "generate_element_path scenario_h1 = ''[document]  -> html  -> body  -> h1 id=main''"
  by (simp add: generate_element_path_def scenario_h1_def scenario_body_def soup_element_def
      element_to_string_def)

theorem generate_element_path_segments_witness:
  "list_all named_node scenario_html \<and> scenario_h1 \<in> set (find_all scenario_html) \<and>
   ancestor_depth scenario_h1 = 2 \<and>
   split '' -> '' (generate_element_path scenario_h1) =
     [''[document] '', ''html '', ''body '', ''h1 id=main'']"
proof -
  have a: "list_all named_node scenario_html" by (simp add: scenario_html_def)
  have b: "scenario_h1 \<in> set (find_all scenario_html)" by (simp add: scenario_find_all)
  have c: "list_all (\<lambda>p. CHR ''>'' \<notin> set (element_to_string p)) (scenario_h1 # ancestors scenario_h1)"
    by (simp add: scenario_h1_def scenario_body_def soup_element_def element_to_string_def)
  from generate_element_path_segments [OF a b] c
  have "length (scenario_h1 # ancestors scenario_h1) = ancestor_depth scenario_h1 + 2"
    and "split '' -> '' (generate_element_path scenario_h1) =
         rev (map element_to_string (scenario_h1 # ancestors scenario_h1))"
    by blast+
  then show ?thesis using a b
    by (simp add: scenario_h1_def scenario_body_def soup_element_def element_to_string_def)
qed

text \<open>
  C2 as stated (\<open>d + 1\<close> segments, the root left out) fails for the \<^verbatim>\<open>html\<close> tag of the
  document \<^verbatim>\<open><html></html>\<close>: its depth is 0 and its path has the two segments
  \<^verbatim>\<open>"[document] "\<close> and \<^verbatim>\<open>"html "\<close>.
\<close>

theorem path_length_counterexample:
  "Element ''html'' [] (Some soup_element) \<in> set (find_all [Tag ''html'' [] []]) \<and>
   ancestor_depth (Element ''html'' [] (Some soup_element)) = 0 \<and>
   generate_element_path (Element ''html'' [] (Some soup_element)) = ''[document]  -> html '' \<and>
   split '' -> '' (generate_element_path (Element ''html'' [] (Some soup_element))) =
     [''[document] '', ''html ''] \<and>
   length (split '' -> '' (generate_element_path (Element ''html'' [] (Some soup_element)))) \<noteq>
     ancestor_depth (Element ''html'' [] (Some soup_element)) + 1"
  by (simp add: find_all_def soup_element_def ancestor_depth_def generate_element_path_def
      element_to_string_def split_def)

text \<open>
  C9: the descriptor of an element without attributes is its tag name followed by one
  space; so in the path of a child of such an element the parent's name is followed by two
  spaces and the separator's arrow.
\<close>

theorem element_to_string_no_attrs:
  assumes "el_attrs p = []"
  shows "element_to_string p = el_name p @ '' '' \<and>
         (el_name p \<noteq> [] \<and> n \<noteq> [] \<longrightarrow>
            (\<exists>pre. generate_element_path (Element n a (Some p)) =
               pre @ el_name p @ ''  -> '' @ element_to_string (Element n a (Some p))))"
proof -
  have d: "element_to_string p = el_name p @ '' ''"
    using assms by (simp add: element_to_string_def)
  have "\<exists>pre. generate_element_path (Element n a (Some p)) =
               pre @ el_name p @ ''  -> '' @ element_to_string (Element n a (Some p))"
    if "el_name p \<noteq> []" and "n \<noteq> []"
  proof -
    obtain pn pa pp where p: "p = Element pn pa pp" by (cases p)
    define rest where "rest = (case pp of None \<Rightarrow> [] | Some q \<Rightarrow> path_parts q)"
    have "path_parts (Element n a (Some p)) =
            element_to_string (Element n a (Some p)) # element_to_string p # rest"
      using that by (simp add: p rest_def)
    then have "generate_element_path (Element n a (Some p)) =
            join '' -> '' ((rev rest @ [element_to_string p]) @ [element_to_string (Element n a (Some p))])"
      by (simp add: generate_element_path_def)
    also have "\<dots> = join '' -> '' (rev rest @ [element_to_string p]) @ '' -> '' @
                      element_to_string (Element n a (Some p))"
      by (simp only: join_snoc) simp
    also have "join '' -> '' (rev rest @ [element_to_string p]) =
                 (if rest = [] then [] else join '' -> '' (rev rest) @ '' -> '') @ el_name p @ '' ''"
      by (simp add: join_snoc d)
    finally show ?thesis by simp
  qed
  with d show ?thesis by blast
qed

theorem element_to_string_no_attrs_witness:
  "el_attrs scenario_body = [] \<and> element_to_string scenario_body = ''body '' \<and>
   generate_element_path scenario_h1 = ''[document]  -> html  -> body  -> h1 id=main''"
  using element_to_string_no_attrs [of scenario_body "''h1''" "[(''id'', Scalar ''main'')]"]
  by (simp add: scenario_body_def scenario_path)

section \<open>Properties of the similarity matcher\<close>

lemma argmax_from_first_max:
  "argmax_from bi b i xs = k \<Longrightarrow>
     (k = bi \<and> list_all (\<lambda>x. x \<le> b) xs) \<or>
     (\<exists>j<length xs. k = i + j \<and> b < xs ! j \<and> (\<forall>m<length xs. xs ! m \<le> xs ! j) \<and> (\<forall>m<j. xs ! m < xs ! j))"
proof (induction xs arbitrary: bi b i)
  case Nil
  then show ?case by simp
next
  case (Cons x xs)
  show ?case
  proof (cases "b < x")
    case True
    with Cons.prems have r: "argmax_from i x (Suc i) xs = k" by simp
    from Cons.IH [OF r] show ?thesis
    proof
      assume a: "k = i \<and> list_all (\<lambda>y. y \<le> x) xs"
      then have "\<forall>m<length (x # xs). (x # xs) ! m \<le> (x # xs) ! 0"
        by (auto simp: nth_Cons' list_all_length)
      with a True have "0 < length (x # xs) \<and> k = i + 0 \<and> b < (x # xs) ! 0 \<and>
          (\<forall>m<length (x # xs). (x # xs) ! m \<le> (x # xs) ! 0) \<and> (\<forall>m<0. (x # xs) ! m < (x # xs) ! 0)"
        by simp
      then show ?thesis by blast
    next
      assume "\<exists>j<length xs. k = Suc i + j \<and> x < xs ! j \<and> (\<forall>m<length xs. xs ! m \<le> xs ! j) \<and> (\<forall>m<j. xs ! m < xs ! j)"
      then obtain j where j: "j < length xs" "k = Suc i + j" "x < xs ! j"
        "\<forall>m<length xs. xs ! m \<le> xs ! j" "\<forall>m<j. xs ! m < xs ! j" by blast
      have "Suc j < length (x # xs) \<and> k = i + Suc j \<and> b < (x # xs) ! Suc j \<and>
          (\<forall>m<length (x # xs). (x # xs) ! m \<le> (x # xs) ! Suc j) \<and>
          (\<forall>m<Suc j. (x # xs) ! m < (x # xs) ! Suc j)"
        using j True by (auto simp: nth_Cons' less_Suc_eq_0_disj)
      then show ?thesis by blast
    qed
  next
    case False
    with Cons.prems have r: "argmax_from bi b (Suc i) xs = k" by simp
    from Cons.IH [OF r] show ?thesis
    proof
      assume "k = bi \<and> list_all (\<lambda>x. x \<le> b) xs"
      with False show ?thesis by simp
    next
      assume "\<exists>j<length xs. k = Suc i + j \<and> b < xs ! j \<and> (\<forall>m<length xs. xs ! m \<le> xs ! j) \<and> (\<forall>m<j. xs ! m < xs ! j)"
      then obtain j where j: "j < length xs" "k = Suc i + j" "b < xs ! j"
        "\<forall>m<length xs. xs ! m \<le> xs ! j" "\<forall>m<j. xs ! m < xs ! j" by blast
      have "Suc j < length (x # xs) \<and> k = i + Suc j \<and> b < (x # xs) ! Suc j \<and>
          (\<forall>m<length (x # xs). (x # xs) ! m \<le> (x # xs) ! Suc j) \<and>
          (\<forall>m<Suc j. (x # xs) ! m < (x # xs) ! Suc j)"
        using j False by (auto simp: nth_Cons' less_Suc_eq_0_disj)
      then show ?thesis by blast
    qed
  qed
qed

lemma argmax_first_max:
  assumes "row \<noteq> []"
  shows "\<exists>k<length row. argmax row = Inr k \<and> (\<forall>m<length row. row ! m \<le> row ! k) \<and>
           (\<forall>m<k. row ! m < row ! k)"
proof -
  from assms obtain x xs where row: "row = x # xs" by (cases row) auto
  define k where "k = argmax_from 0 x 1 xs"
  from argmax_from_first_max [of 0 x 1 xs k] k_def
  consider "k = 0" "list_all (\<lambda>y. y \<le> x) xs"
    | j where "j < length xs" "k = 1 + j" "x < xs ! j" "\<forall>m<length xs. xs ! m \<le> xs ! j" "\<forall>m<j. xs ! m < xs ! j"
    by blast
  then have "k < length row \<and> (\<forall>m<length row. row ! m \<le> row ! k) \<and> (\<forall>m<k. row ! m < row ! k)"
  proof cases
    case 1
    then show ?thesis by (auto simp: row nth_Cons' list_all_length)
  next
    case 2
    then show ?thesis by (auto simp: row nth_Cons' less_Suc_eq_0_disj)
  qed
  then show ?thesis by (auto simp: row k_def)
qed

lemma matcher_row:
  assumes "vocabulary v \<noteq> []" and "find_all html \<noteq> []"
  shows "find_most_similar_element_path html path v =
         (case argmax (map (path_similarity v path) (map generate_element_path (find_all html))) of
            Inl e \<Rightarrow> Inl e
          | Inr k \<Rightarrow> getitem (map generate_element_path (find_all html)) k)"
  using assms
  by (simp add: find_most_similar_element_path_def transform_def cosine_similarity_def getitem_def Let_def
      path_similarity_def comp_def Let_def)

lemma matcher_first_max:
  assumes "vocabulary v \<noteq> []" and "find_all html \<noteq> []"
  shows "\<exists>k<length (find_all html).
           find_most_similar_element_path html path v = Inr (generate_element_path (find_all html ! k)) \<and>
           (\<forall>m<length (find_all html).
              path_similarity v path (generate_element_path (find_all html ! m)) \<le>
              path_similarity v path (generate_element_path (find_all html ! k))) \<and>
           (\<forall>m<k. path_similarity v path (generate_element_path (find_all html ! m)) <
              path_similarity v path (generate_element_path (find_all html ! k)))"
proof -
  let ?paths = "map generate_element_path (find_all html)"
  let ?row = "map (path_similarity v path) ?paths"
  from assms(2) have "?row \<noteq> []" by simp
  from argmax_first_max [OF this] obtain k where
    k: "k < length ?row" "argmax ?row = Inr k" "\<forall>m<length ?row. ?row ! m \<le> ?row ! k"
       "\<forall>m<k. ?row ! m < ?row ! k" by blast
  from k(1) have kl: "k < length (find_all html)" by simp
  have res: "find_most_similar_element_path html path v = Inr (generate_element_path (find_all html ! k))"
    using k(2) kl by (simp add: matcher_row [OF assms] getitem_def)
  have mx: "\<forall>m<length (find_all html).
              path_similarity v path (generate_element_path (find_all html ! m)) \<le>
              path_similarity v path (generate_element_path (find_all html ! k))"
    using k(3) kl by simp
  have fst: "\<forall>m<k. path_similarity v path (generate_element_path (find_all html ! m)) <
              path_similarity v path (generate_element_path (find_all html ! k))"
    using k(4) kl by simp
  from kl res mx fst show ?thesis by blast
qed

lemma enumerate_all_zero:
  "list_all (\<lambda>a. a = 0) counts \<Longrightarrow> filter (\<lambda>(j, c). c \<noteq> 0) (enumerate n counts) = []"
  by (induction counts arbitrary: n) simp_all

lemma sparse_row_zero: "list_all (\<lambda>a. a = 0) counts \<Longrightarrow> sparse_row counts = []"
  using enumerate_all_zero [of counts 0] by (simp add: sparse_row_def)

lemma path_similarity_zero:
  "list_all (\<lambda>a. a = 0) (count_vector v path) \<Longrightarrow> path_similarity v path cand = 0"
  by (simp add: path_similarity_def sparse_row_zero normalize_row_def sum_squares_def dot_def)

lemma round_half_even_of_int: "round_half_even (of_int m) = m"
  by (simp add: round_half_even_def)

lemma fl_zero: "fl 0 = 0"
  by (simp add: fl_def)

lemma fl_power_of_two: "fl (2 ^ n) = 2 ^ n"
proof -
  have l: "\<lfloor>log 2 \<bar>2 ^ n :: real\<bar>\<rfloor> = int n" by simp
  let ?u = "2 powr (real n - 52) :: real"
  have "(2 ^ n :: real) = 2 powr (real n)" by (simp add: powr_realpow)
  then have "(2 ^ n :: real) / ?u = 2 powr (real n - (real n - 52))"
    by (simp add: powr_diff)
  also have "\<dots> = 2 powr 52" by simp
  also have "\<dots> = of_int (2 ^ 52)" by (simp add: powr_numeral)
  finally have q: "(2 ^ n :: real) / ?u = of_int (2 ^ 52)" .
  have "fl (2 ^ n) = of_int (round_half_even ((2 ^ n) / ?u)) * ?u"
    by (simp add: fl_def l Let_def)
  also have "\<dots> = of_int (2 ^ 52) * ?u"
    unfolding q round_half_even_of_int ..
  also have "\<dots> = ((2 ^ n :: real) / ?u) * ?u" unfolding q ..
  also have "\<dots> = 2 ^ n" by simp
  finally show ?thesis .
qed

lemma fl_one: "fl 1 = 1"
  using fl_power_of_two [of 0] by simp

lemma fl_two: "fl 2 = 2"
  using fl_power_of_two [of 1] by simp

lemma fl_four: "fl 4 = 4"
  using fl_power_of_two [of 2] by simp

lemma count_vector_zero_iff:
  "list_all (\<lambda>a. a = 0) (count_vector v path) \<longleftrightarrow> set (analyze path) \<inter> set (vocabulary v) = {}"
  by (auto simp: count_vector_def list_all_iff count_list_0_iff)

lemmas eval_matcher =
  find_most_similar_element_path_def find_all_def soup_element_def
  generate_element_path_def element_to_string_def transform_def count_vector_def analyze_def
  is_word_char_def lower_char_def cosine_similarity_def getitem_def path_similarity_def
  sparse_row_def normalize_row_def sum_squares_def dot_def of_count_def fadd_def fmul_def
  fdiv_def fsqrt_def fl_zero fl_one fl_two fl_four

text \<open>
  C1, as the code has it: for a document without elements \<^verbatim>\<open>find_most_similar_element_path\<close>
  fails with the \<^verbatim>\<open>ValueError\<close> of the numerical library, which refuses a matrix of
  candidates without rows (or, before that, an empty vocabulary). The source has no guard for
  the empty document and no condition of its own for it.
\<close>

theorem empty_document_value_error:
  assumes "find_all html = []"
  shows "find_most_similar_element_path html path v = Inl ValueError"
  using assms
  by (simp add: find_most_similar_element_path_def transform_def cosine_similarity_def)

theorem empty_document_value_error_witness:
  "find_all [NavigableString ''Hi''] = [] \<and>
   find_most_similar_element_path [NavigableString ''Hi''] ''html '' (CountVectorizer [''html'']) =
     Inl ValueError"
  using empty_document_value_error [of "[NavigableString ''Hi'']" "''html ''" "CountVectorizer [''html'']"]
  by (simp add: find_all_def)

text \<open>
  C1 as stated (an \<^verbatim>\<open>EmptyDocument\<close> condition is signalled) fails for the empty markup:
  the result is the library's \<^verbatim>\<open>ValueError\<close>.
\<close>

theorem empty_document_counterexample:
  "find_all [] = [] \<and>
   find_most_similar_element_path [] ''html '' (CountVectorizer [''html'']) = Inl ValueError \<and>
   find_most_similar_element_path [] ''html '' (CountVectorizer [''html'']) \<noteq> Inl EmptyDocument"
  by (simp add: eval_matcher)

text \<open>
  C7: for a document with at least one element and a fitted vectorizer, the vector of the
  target path is all zero exactly when no token of the path is in the vocabulary; then the
  similarity to every candidate is 0 and the matcher returns the path of the first element in
  document order. In general the matcher returns the path of the first element, in document
  order, whose similarity is maximal.
\<close>

theorem zero_vector_first_candidate:
  assumes "find_all html \<noteq> []" and "vocabulary v \<noteq> []"
  shows "(list_all (\<lambda>a. a = 0) (count_vector v path) \<longleftrightarrow>
            set (analyze path) \<inter> set (vocabulary v) = {}) \<and>
         (list_all (\<lambda>a. a = 0) (count_vector v path) \<longrightarrow>
            (\<forall>cand. path_similarity v path cand = 0) \<and>
            find_most_similar_element_path html path v =
              Inr (generate_element_path (hd (find_all html)))) \<and>
         (\<exists>k<length (find_all html).
            find_most_similar_element_path html path v =
              Inr (generate_element_path (find_all html ! k)) \<and>
            (\<forall>m<length (find_all html).
               path_similarity v path (generate_element_path (find_all html ! m)) \<le>
               path_similarity v path (generate_element_path (find_all html ! k))) \<and>
            (\<forall>m<k. path_similarity v path (generate_element_path (find_all html ! m)) <
               path_similarity v path (generate_element_path (find_all html ! k))))"
proof -
  from matcher_first_max [OF assms(2,1), of path] obtain k where
    k: "k < length (find_all html)"
       "find_most_similar_element_path html path v = Inr (generate_element_path (find_all html ! k))"
       "\<forall>m<length (find_all html).
          path_similarity v path (generate_element_path (find_all html ! m)) \<le>
          path_similarity v path (generate_element_path (find_all html ! k))"
       "\<forall>m<k. path_similarity v path (generate_element_path (find_all html ! m)) <
          path_similarity v path (generate_element_path (find_all html ! k))"
    by blast
  have zero: "(\<forall>cand. path_similarity v path cand = 0) \<and>
       find_most_similar_element_path html path v = Inr (generate_element_path (hd (find_all html)))"
    if z: "list_all (\<lambda>a. a = 0) (count_vector v path)"
  proof -
    from z have all0: "\<forall>cand. path_similarity v path cand = 0"
      by (simp add: path_similarity_zero)
    have "k = 0"
    proof (rule ccontr)
      assume "k \<noteq> 0"
      then have "0 < k" by simp
      with k(4) have "path_similarity v path (generate_element_path (find_all html ! 0)) <
          path_similarity v path (generate_element_path (find_all html ! k))" by blast
      with all0 show False by simp
    qed
    with k(2) assms(1) have "find_most_similar_element_path html path v =
        Inr (generate_element_path (hd (find_all html)))"
      by (simp add: hd_conv_nth)
    with all0 show ?thesis by blast
  qed
  from zero k count_vector_zero_iff [of v path] show ?thesis by blast
qed

theorem zero_vector_first_candidate_witness:
  "find_all scenario_html \<noteq> [] \<and>
   vocabulary (CountVectorizer [''body'', ''h1'', ''html'', ''id'', ''main'']) \<noteq> [] \<and>
   set (analyze ''table  -> tr '') \<inter>
     set (vocabulary (CountVectorizer [''body'', ''h1'', ''html'', ''id'', ''main''])) = {} \<and>
   find_most_similar_element_path scenario_html ''table  -> tr ''
     (CountVectorizer [''body'', ''h1'', ''html'', ''id'', ''main'']) = Inr ''[document]  -> html ''"
proof -
  have a: "find_all scenario_html \<noteq> []" by (simp add: scenario_find_all)
  have b: "vocabulary (CountVectorizer [''body'', ''h1'', ''html'', ''id'', ''main'']) \<noteq> []" by simp
  have c: "set (analyze ''table  -> tr '') \<inter>
     set (vocabulary (CountVectorizer [''body'', ''h1'', ''html'', ''id'', ''main''])) = {}"
    by (simp add: analyze_def is_word_char_def lower_char_def)
  from zero_vector_first_candidate [OF a b, of "''table  -> tr ''"] c
  have "find_most_similar_element_path scenario_html ''table  -> tr ''
     (CountVectorizer [''body'', ''h1'', ''html'', ''id'', ''main'']) =
       Inr (generate_element_path (hd (find_all scenario_html)))"
    by blast
  then have "find_most_similar_element_path scenario_html ''table  -> tr ''
     (CountVectorizer [''body'', ''h1'', ''html'', ''id'', ''main'']) = Inr ''[document]  -> html ''"
    by (simp add: scenario_find_all generate_element_path_def element_to_string_def soup_element_def)
  with a b c show ?thesis by blast
qed

lemma matcher_result_candidate:
  "find_most_similar_element_path html path v = Inr r \<Longrightarrow>
     r \<in> generate_element_path ` set (find_all html)"
  by (auto simp: find_most_similar_element_path_def Let_def getitem_def
      split: sum.splits if_splits)

lemma most_similar_loop_results:
  "most_similar_loop html v acc paths = Inr res \<Longrightarrow>
     \<exists>rs. list_all2 (\<lambda>p r. find_most_similar_element_path html p v = Inr r) paths rs \<and>
          res = acc @ filter (\<lambda>r. r \<noteq> []) rs"
proof (induction paths arbitrary: acc)
  case Nil
  then show ?case by simp
next
  case (Cons p paths)
  from Cons.prems obtain r where
    r: "find_most_similar_element_path html p v = Inr r" and
    rest: "most_similar_loop html v (if r \<noteq> [] then acc @ [r] else acc) paths = Inr res"
    by (auto split: sum.splits)
  from Cons.IH [OF rest] obtain rs where
    rs: "list_all2 (\<lambda>p r. find_most_similar_element_path html p v = Inr r) paths rs"
        "res = (if r \<noteq> [] then acc @ [r] else acc) @ filter (\<lambda>r. r \<noteq> []) rs"
    by blast
  from r rs have "list_all2 (\<lambda>p r. find_most_similar_element_path html p v = Inr r) (p # paths) (r # rs) \<and>
      res = acc @ filter (\<lambda>r. r \<noteq> []) (r # rs)"
    by simp
  then show ?case by blast
qed

text \<open>
  C10: when \<^verbatim>\<open>get_most_similar_paths\<close> returns a list, every string in it is the
  \<^verbatim>\<open>generate_element_path\<close> of an element of the document, the list is no longer than the
  list of target paths, and it holds the non-empty results of the matcher for the target
  paths, in the order of the target paths.
\<close>

theorem get_most_similar_paths_candidates:
  assumes "get_most_similar_paths html paths v = Inr res"
  shows "set res \<subseteq> generate_element_path ` set (find_all html) \<and>
         length res \<le> length paths \<and>
         (\<exists>rs. list_all2 (\<lambda>p r. find_most_similar_element_path html p v = Inr r) paths rs \<and>
               res = filter (\<lambda>r. r \<noteq> []) rs)"
proof -
  from assms most_similar_loop_results [of html v "[]" paths res] obtain rs where
    rs: "list_all2 (\<lambda>p r. find_most_similar_element_path html p v = Inr r) paths rs"
        "res = filter (\<lambda>r. r \<noteq> []) rs"
    by (auto simp: get_most_similar_paths_def)
  from rs(1) have len: "length rs = length paths" by (simp add: list_all2_lengthD)
  have "length res \<le> length rs" unfolding rs(2) by (rule length_filter_le)
  with len have l: "length res \<le> length paths" by simp
  have "set rs \<subseteq> generate_element_path ` set (find_all html)"
  proof
    fix r assume "r \<in> set rs"
    then obtain i where i: "i < length rs" "rs ! i = r" by (auto simp: in_set_conv_nth)
    with rs(1) len have "find_most_similar_element_path html (paths ! i) v = Inr r"
      by (auto dest: list_all2_nthD2)
    then show "r \<in> generate_element_path ` set (find_all html)"
      by (rule matcher_result_candidate)
  qed
  then have s: "set res \<subseteq> generate_element_path ` set (find_all html)"
    unfolding rs(2) by auto
  from s l rs show ?thesis by blast
qed

lemma scenario_match_h1:
  "find_most_similar_element_path scenario_html ''html  -> body  -> h1 id=main''
     (CountVectorizer [''h1'']) = Inr ''[document]  -> html  -> body  -> h1 id=main''"
  by (simp add: eval_matcher scenario_html_def)

lemma scenario_match_table:
  "find_most_similar_element_path scenario_html ''table  -> tr ''
     (CountVectorizer [''h1'']) = Inr ''[document]  -> html ''"
  by (simp add: eval_matcher scenario_html_def)

theorem get_most_similar_paths_candidates_witness:
  "get_most_similar_paths scenario_html [''html  -> body  -> h1 id=main'', ''table  -> tr '']
     (CountVectorizer [''h1'']) =
     Inr [''[document]  -> html  -> body  -> h1 id=main'', ''[document]  -> html ''] \<and>
   set [''[document]  -> html  -> body  -> h1 id=main'', ''[document]  -> html ''] \<subseteq>
     generate_element_path ` set (find_all scenario_html)"
proof -
  have a: "get_most_similar_paths scenario_html [''html  -> body  -> h1 id=main'', ''table  -> tr '']
     (CountVectorizer [''h1'']) =
     Inr [''[document]  -> html  -> body  -> h1 id=main'', ''[document]  -> html '']"
    by (simp add: get_most_similar_paths_def scenario_match_h1 scenario_match_table)
  from get_most_similar_paths_candidates [OF a] a show ?thesis by blast
qed

text \<open>
  C6, as the code has it: when the target path is the path of the element number \<open>i\<close> of
  the document, the matcher returns the path of the first element in document order whose
  computed similarity to the target is maximal, an element at least as similar to the target
  as element \<open>i\<close>. When no element is more similar than element \<open>i\<close>, this is the first
  element as similar as element \<open>i\<close>, and it is the target path itself when every earlier
  element is strictly less similar. The similarity is the double that the library computes:
  the exact match need not score 1 and need not score highest.
\<close>

theorem exact_path_first_maximum:
  assumes "vocabulary v \<noteq> []" and "i < length (find_all html)"
    and "generate_element_path (find_all html ! i) = path"
  shows "(\<exists>k<length (find_all html).
            find_most_similar_element_path html path v =
              Inr (generate_element_path (find_all html ! k)) \<and>
            path_similarity v path path \<le>
              path_similarity v path (generate_element_path (find_all html ! k)) \<and>
            (\<forall>m<length (find_all html).
               path_similarity v path (generate_element_path (find_all html ! m)) \<le>
               path_similarity v path (generate_element_path (find_all html ! k))) \<and>
            (\<forall>m<k. path_similarity v path (generate_element_path (find_all html ! m)) <
               path_similarity v path (generate_element_path (find_all html ! k)))) \<and>
         (list_all (\<lambda>e. path_similarity v path (generate_element_path e) \<le> path_similarity v path path)
            (find_all html) \<longrightarrow>
          (\<exists>k\<le>i. find_most_similar_element_path html path v =
                   Inr (generate_element_path (find_all html ! k)) \<and>
                 path_similarity v path (generate_element_path (find_all html ! k)) =
                   path_similarity v path path \<and>
                 (\<forall>m<k. path_similarity v path (generate_element_path (find_all html ! m)) <
                    path_similarity v path path))) \<and>
         (list_all (\<lambda>e. path_similarity v path (generate_element_path e) \<le> path_similarity v path path)
            (find_all html) \<and>
          list_all (\<lambda>e. path_similarity v path (generate_element_path e) < path_similarity v path path)
            (take i (find_all html)) \<longrightarrow>
          find_most_similar_element_path html path v = Inr path)"
proof -
  let ?sim = "\<lambda>m. path_similarity v path (generate_element_path (find_all html ! m))"
  let ?self = "path_similarity v path path"
  from assms(2) have ne: "find_all html \<noteq> []" by auto
  from matcher_first_max [OF assms(1) ne, of path] obtain k where
    k: "k < length (find_all html)"
       "find_most_similar_element_path html path v = Inr (generate_element_path (find_all html ! k))"
       "\<forall>m<length (find_all html). ?sim m \<le> ?sim k"
       "\<forall>m<k. ?sim m < ?sim k"
    by blast
  have self: "?sim i = ?self" using assms(3) by simp
  from k(3) assms(2) have "?sim i \<le> ?sim k" by blast
  with self have ge: "?self \<le> ?sim k" by simp
  have first: "k \<le> i \<and> ?sim k = ?self \<and> (\<forall>m<k. ?sim m < ?self)"
    if top: "list_all (\<lambda>e. path_similarity v path (generate_element_path e) \<le> ?self) (find_all html)"
  proof -
    from top k(1) have "?sim k \<le> ?self" by (simp add: list_all_length)
    with ge have eq: "?sim k = ?self" by simp
    have ki: "k \<le> i"
    proof (rule ccontr)
      assume "\<not> k \<le> i"
      then have "i < k" by simp
      with k(4) have "?sim i < ?sim k" by blast
      with eq self show False by simp
    qed
    from k(4) eq have "\<forall>m<k. ?sim m < ?self" by simp
    with ki eq show ?thesis by blast
  qed
  have exact: "find_most_similar_element_path html path v = Inr path"
    if top: "list_all (\<lambda>e. path_similarity v path (generate_element_path e) \<le> ?self) (find_all html)"
      and low: "list_all (\<lambda>e. path_similarity v path (generate_element_path e) < ?self)
                  (take i (find_all html))"
  proof -
    from first [OF top] have ki: "k \<le> i" and eq: "?sim k = ?self" by simp_all
    have "k = i"
    proof (rule ccontr)
      assume "k \<noteq> i"
      with ki have "k < i" by simp
      with low assms(2) have "?sim k < ?self" by (simp add: list_all_length)
      with eq show False by simp
    qed
    with k(2) assms(3) show ?thesis by simp
  qed
  from k ge first exact show ?thesis by blast
qed

theorem exact_path_first_maximum_witness:
  "vocabulary (CountVectorizer [''h1'']) \<noteq> [] \<and> 2 < length (find_all scenario_html) \<and>
   generate_element_path (find_all scenario_html ! 2) = ''[document]  -> html  -> body  -> h1 id=main'' \<and>
   list_all (\<lambda>e. path_similarity (CountVectorizer [''h1'']) ''[document]  -> html  -> body  -> h1 id=main''
                  (generate_element_path e) \<le>
                path_similarity (CountVectorizer [''h1'']) ''[document]  -> html  -> body  -> h1 id=main''
                  ''[document]  -> html  -> body  -> h1 id=main'')
     (find_all scenario_html) \<and>
   list_all (\<lambda>e. path_similarity (CountVectorizer [''h1'']) ''[document]  -> html  -> body  -> h1 id=main''
                  (generate_element_path e) <
                path_similarity (CountVectorizer [''h1'']) ''[document]  -> html  -> body  -> h1 id=main''
                  ''[document]  -> html  -> body  -> h1 id=main'')
     (take 2 (find_all scenario_html)) \<and>
   find_most_similar_element_path scenario_html ''[document]  -> html  -> body  -> h1 id=main''
     (CountVectorizer [''h1'']) = Inr ''[document]  -> html  -> body  -> h1 id=main''"
proof -
  let ?p = "''[document]  -> html  -> body  -> h1 id=main''"
  let ?v = "CountVectorizer [''h1'']"
  have a: "vocabulary ?v \<noteq> []" by simp
  have b: "2 < length (find_all scenario_html)" by (simp add: scenario_find_all)
  have c: "generate_element_path (find_all scenario_html ! 2) = ?p"
    by (simp add: scenario_find_all scenario_path)
  have d: "list_all (\<lambda>e. path_similarity ?v ?p (generate_element_path e) \<le> path_similarity ?v ?p ?p)
     (find_all scenario_html)"
    by (simp add: eval_matcher scenario_html_def)
  have e: "list_all (\<lambda>e. path_similarity ?v ?p (generate_element_path e) < path_similarity ?v ?p ?p)
     (take 2 (find_all scenario_html))"
    by (simp add: eval_matcher scenario_html_def)
  from exact_path_first_maximum [OF a b c] d e
  have "find_most_similar_element_path scenario_html ?p ?v = Inr ?p" by blast
  with a b c d e show ?thesis by blast
qed

text \<open>
  C6 as stated (the exact path is returned) fails for \<^verbatim>\<open><div><div></div></div>\<close> and
  the vocabulary of its descriptors: the target is the path of the inner \<^verbatim>\<open>div\<close>, the outer
  one has a parallel count vector and the same similarity 1, computed without rounding, and
  it comes first.
\<close>

theorem exact_path_counterexample:
  "generate_element_path (find_all nested_html ! 1) = ''[document]  -> div  -> div '' \<and>
   find_most_similar_element_path nested_html ''[document]  -> div  -> div '' (CountVectorizer [''div'']) =
     Inr ''[document]  -> div '' \<and>
   find_most_similar_element_path nested_html ''[document]  -> div  -> div '' (CountVectorizer [''div'']) \<noteq>
     Inr ''[document]  -> div  -> div '' \<and>
   path_similarity (CountVectorizer [''div'']) ''[document]  -> div  -> div '' ''[document]  -> div '' = 1"
  by (simp add: eval_matcher nested_html_def)

text \<open>Rounding at given values: the nearest double of a number and of a square root.\<close>

lemma round_half_even_near:
  assumes "\<bar>x - of_int m\<bar> < 1 / 2"
  shows "round_half_even x = m"
proof (cases "of_int m \<le> x")
  case True
  with assms have "\<lfloor>x\<rfloor> = m" by (intro floor_unique) auto
  with assms True show ?thesis by (simp add: round_half_even_def)
next
  case False
  with assms have f: "\<lfloor>x\<rfloor> = m - 1" by (intro floor_unique) auto
  from False assms have "1 / 2 < x - of_int (m - 1)" by auto
  with f show ?thesis by (simp add: round_half_even_def)
qed

lemma fl_eqI:
  assumes "2 ^ 52 \<le> x * 2 ^ k" and "x * 2 ^ k < 2 ^ 53"
    and "\<bar>x * 2 ^ k - of_int m\<bar> < 1 / 2"
  shows "fl x = of_int m / 2 ^ k"
proof -
  have "(0::real) < 2 ^ 52" by simp
  with assms(1) have "0 < x * 2 ^ k" by linarith
  then have pos: "0 < x" by (simp add: zero_less_mult_iff)
  have "log 2 (x * 2 ^ k) = log 2 x + real k"
    using pos by (simp add: log_mult log_nat_power)
  moreover have "52 \<le> log 2 (x * 2 ^ k)"
    using assms(1) \<open>0 < x * 2 ^ k\<close> by (simp add: le_log_iff powr_realpow)
  moreover have "log 2 (x * 2 ^ k) < 53"
    using assms(2) \<open>0 < x * 2 ^ k\<close> by (simp add: log_less_iff powr_realpow)
  ultimately have "\<lfloor>log 2 x\<rfloor> = 52 - int k"
    by (intro floor_unique) auto
  then have e: "\<lfloor>log 2 \<bar>x\<bar>\<rfloor> - 52 = - int k" using pos by simp
  have u: "2 powr (of_int (- int k)) = 1 / (2 ^ k :: real)"
    by (simp add: powr_minus powr_realpow inverse_eq_divide)
  have "fl x = of_int (round_half_even (x / (1 / 2 ^ k))) * (1 / 2 ^ k)"
    using pos unfolding fl_def e u by (simp add: Let_def)
  also have "x / (1 / 2 ^ k) = x * 2 ^ k" by simp
  also have "round_half_even (x * 2 ^ k) = m" using assms(3) by (rule round_half_even_near)
  finally show ?thesis by simp
qed

lemma fl_sqrt_eqI:
  assumes "2 ^ 52 < m" and "m < 2 ^ 53"
    and "(of_int m - 1 / 2)\<^sup>2 < a * 2 ^ (2 * k)" and "a * 2 ^ (2 * k) < (of_int m + 1 / 2)\<^sup>2"
  shows "fl (sqrt a) = of_int m / 2 ^ k"
proof -
  have eq: "sqrt a * 2 ^ k = sqrt (a * 2 ^ (2 * k))"
    unfolding power_even_eq by (simp add: real_sqrt_mult)
  from assms(1) have "2 ^ 52 + 1 \<le> m" by linarith
  then have "real_of_int (2 ^ 52 + 1) \<le> real_of_int m" by (simp only: of_int_le_iff)
  then have m1: "(2 ^ 52 :: real) + 1 \<le> of_int m" by simp
  from assms(2) have "m + 1 \<le> 2 ^ 53" by linarith
  then have "real_of_int (m + 1) \<le> real_of_int (2 ^ 53)" by (simp only: of_int_le_iff)
  then have m2: "of_int m + 1 \<le> (2 ^ 53 :: real)" by simp
  have "(0::real) \<le> 2 ^ 52" by simp
  with m1 have mpos: "(0::real) \<le> of_int m - 1 / 2" by linarith
  have lo: "of_int m - 1 / 2 < sqrt (a * 2 ^ (2 * k))"
    using assms(3) mpos by (intro real_less_rsqrt)
  from mpos have "(0::real) < of_int m + 1 / 2" by linarith
  then have hi: "sqrt (a * 2 ^ (2 * k)) < of_int m + 1 / 2"
    using assms(4) by (intro real_less_lsqrt) simp_all
  show ?thesis
  proof (rule fl_eqI)
    show "2 ^ 52 \<le> sqrt a * 2 ^ k" unfolding eq using lo m1 by linarith
    show "sqrt a * 2 ^ k < 2 ^ 53" unfolding eq using hi m2 by linarith
    show "\<bar>sqrt a * 2 ^ k - of_int m\<bar> < 1 / 2" unfolding eq using lo hi by linarith
  qed
qed

lemma fsqrt_2: "fl (sqrt 2) = 6369051672525773 / 2 ^ 52"
proof -
  have "fl (sqrt 2) = of_int 6369051672525773 / 2 ^ 52"
  proof (rule fl_sqrt_eqI)
    show "(2::int) ^ 52 < 6369051672525773" by simp
    show "(6369051672525773::int) < 2 ^ 53" by simp
    show "(of_int 6369051672525773 - 1 / 2)\<^sup>2 < (2::real) * 2 ^ (2 * 52)"
      by (simp add: power2_eq_square)
    show "(2::real) * 2 ^ (2 * 52) < (of_int 6369051672525773 + 1 / 2)\<^sup>2"
      by (simp add: power2_eq_square)
  qed
  then show ?thesis by simp
qed

lemma triple_paths:
  "map generate_element_path (find_all triple_html) =
     [''[document]  -> div id=a'', ''[document]  -> div id=a -> div id=a'',
      ''[document]  -> div id=a -> div id=a -> div id=a'']"
  by (simp add: triple_html_def find_all_def soup_element_def generate_element_path_def
      element_to_string_def)

lemma triple_vectors:
  "map (count_vector (CountVectorizer [''div'', ''id''])) (map generate_element_path (find_all triple_html)) =
     [[1, 1], [2, 2], [3, 3]]"
  unfolding triple_paths
  by (simp add: count_vector_def analyze_def is_word_char_def lower_char_def)

lemma fl_exact:
  assumes "2 ^ 52 \<le> m" and "m < 2 ^ 53"
  shows "fl (of_int m / 2 ^ k) = of_int m / 2 ^ k"
proof (rule fl_eqI)
  from assms(1) have "real_of_int (2 ^ 52) \<le> real_of_int m" by (simp only: of_int_le_iff)
  then show "2 ^ 52 \<le> real_of_int m / 2 ^ k * 2 ^ k" by simp
  from assms(2) have "real_of_int m < real_of_int (2 ^ 53)" by (simp only: of_int_less_iff)
  then show "real_of_int m / 2 ^ k * 2 ^ k < 2 ^ 53" by simp
  show "\<bar>real_of_int m / 2 ^ k * 2 ^ k - real_of_int m\<bar> < 1 / 2" by simp
qed

lemma triple_similarities:
  "map (path_similarity (CountVectorizer [''div'', ''id'']) ''[document]  -> div id=a'')
     (map generate_element_path (find_all triple_html)) =
   [9007199254740990 / 2 ^ 53, 9007199254740990 / 2 ^ 53, 1]"
proof -
  define r2 :: real where "r2 = 6369051672525773 / 2 ^ 52"
  define r18 :: real where "r18 = 4776788754394329 / 2 ^ 50"
  define a :: real where "a = 6369051672525772 / 2 ^ 53"
  define c :: real where "c = 6369051672525773 / 2 ^ 53"
  define p :: real where "p = 9007199254740990 / 2 ^ 54"
  define s :: real where "s = 9007199254740990 / 2 ^ 53"
  have f3: "fl 3 = 3" using fl_exact [of 6755399441055744 51] by simp
  have f8: "fl 8 = 8" using fl_power_of_two [of 3] by simp
  have f9: "fl 9 = 9" using fl_exact [of 5066549580791808 49] by simp
  have f18: "fl 18 = 18" using fl_exact [of 5066549580791808 48] by simp
  have fh: "fl (1 / 2) = 1 / 2" using fl_exact [of 4503599627370496 53] by simp
  have s2: "fl (sqrt 2) = r2" unfolding r2_def by (rule fsqrt_2)
  have s8: "fl (sqrt 8) = 2 * r2"
  proof -
    have "fl (sqrt 8) = of_int 6369051672525773 / 2 ^ 51"
      by (rule fl_sqrt_eqI) (simp_all add: power2_eq_square)
    then show ?thesis by (simp add: r2_def)
  qed
  have s18: "fl (sqrt 18) = r18"
  proof -
    have "fl (sqrt 18) = of_int 4776788754394329 / 2 ^ 50"
      by (rule fl_sqrt_eqI) (simp_all add: power2_eq_square)
    then show ?thesis by (simp add: r18_def)
  qed
  have da: "fl (1 / r2) = a"
  proof -
    have "fl (1 / r2) = of_int 6369051672525772 / 2 ^ 53"
      unfolding r2_def by (rule fl_eqI) simp_all
    then show ?thesis by (simp add: a_def)
  qed
  have dc: "fl (3 / r18) = c"
  proof -
    have "fl (3 / r18) = of_int 6369051672525773 / 2 ^ 53"
      unfolding r18_def by (rule fl_eqI) simp_all
    then show ?thesis by (simp add: c_def)
  qed
  have maa: "fl (a * a) = p"
  proof -
    have "fl (a * a) = of_int 9007199254740990 / 2 ^ 54"
      unfolding a_def by (rule fl_eqI) simp_all
    then show ?thesis by (simp add: p_def)
  qed
  have fp: "fl p = p"
    unfolding p_def using fl_exact [of 9007199254740990 54] by simp
  have app: "fl (p + p) = s"
  proof -
    have "fl (p + p) = of_int 9007199254740990 / 2 ^ 53"
      unfolding p_def by (rule fl_eqI) simp_all
    then show ?thesis by (simp add: s_def)
  qed
  have app2: "fl (2 * p) = s" using app by simp
  have mac: "fl (a * c) = 1 / 2"
  proof -
    have "fl (a * c) = of_int 9007199254740992 / 2 ^ 54"
      unfolding a_def c_def by (rule fl_eqI) simp_all
    then show ?thesis by simp
  qed
  have n1: "normalize_row (sparse_row [1, 1]) = [(0, a), (1, a)]"
    by (simp add: normalize_row_def sparse_row_def sum_squares_def of_count_def fadd_def fmul_def
        fdiv_def fsqrt_def fl_zero fl_one fl_two s2 da)
  have n2: "normalize_row (sparse_row [2, 2]) = [(0, a), (1, a)]"
    by (simp add: normalize_row_def sparse_row_def sum_squares_def of_count_def fadd_def fmul_def
        fdiv_def fsqrt_def fl_zero fl_two fl_four f8 s8 da)
  have n3: "normalize_row (sparse_row [3, 3]) = [(0, c), (1, c)]"
    by (simp add: normalize_row_def sparse_row_def sum_squares_def of_count_def fadd_def fmul_def
        fdiv_def fsqrt_def fl_zero f3 f9 f18 s18 dc)
  have d1: "dot [(0, a), (1, a)] [(0, a), (1, a)] = s"
    by (simp add: dot_def fadd_def fmul_def maa fp app2)
  have d3: "dot [(0, a), (1, a)] [(0, c), (1, c)] = 1"
    by (simp add: dot_def fadd_def fmul_def mac fh fl_one)
  have "map (path_similarity (CountVectorizer [''div'', ''id'']) ''[document]  -> div id=a'')
     (map generate_element_path (find_all triple_html)) =
     map (\<lambda>y. dot (normalize_row (sparse_row [1, 1])) (normalize_row (sparse_row y)))
       (map (count_vector (CountVectorizer [''div'', ''id''])) (map generate_element_path (find_all triple_html)))"
    using triple_vectors by (simp add: path_similarity_def comp_def triple_paths)
  also have "\<dots> = [s, s, 1]"
    unfolding triple_vectors by (simp only: list.map n1 n2 n3 d1 d3)
  finally show ?thesis by (simp add: s_def)
qed


text \<open>
  The exact path need not score highest. For three nested \<^verbatim>\<open><div id="a">\<close> and the
  vocabulary \<^verbatim>\<open>div\<close>, \<^verbatim>\<open>id\<close> the rows of counts are parallel; with the path of the first
  element as target the doubles are \<^verbatim>\<open>0.9999999999999998\<close>, \<^verbatim>\<open>0.9999999999999998\<close> and
  \<^verbatim>\<open>1.0\<close>, and the matcher returns the path of the third element.
\<close>

lemma rounding_beats_exact_path:
  "generate_element_path (find_all triple_html ! 0) = ''[document]  -> div id=a'' \<and>
   find_most_similar_element_path triple_html ''[document]  -> div id=a''
     (CountVectorizer [''div'', ''id'']) =
     Inr ''[document]  -> div id=a -> div id=a -> div id=a''"
proof -
  have ne: "find_all triple_html \<noteq> []" using triple_paths by auto
  have v: "vocabulary (CountVectorizer [''div'', ''id'']) \<noteq> []" by simp
  have first: "generate_element_path (find_all triple_html ! 0) = ''[document]  -> div id=a''"
    using triple_paths ne by (cases "find_all triple_html") simp_all
  have "find_most_similar_element_path triple_html ''[document]  -> div id=a''
     (CountVectorizer [''div'', ''id'']) =
     Inr ''[document]  -> div id=a -> div id=a -> div id=a''"
    unfolding matcher_row [OF v ne] triple_similarities
    by (simp add: triple_paths getitem_def)
  with first show ?thesis by simp
qed

section \<open>Properties of the attribute codec\<close>

lemma word_char_facts:
  "is_word_char c \<Longrightarrow> c \<noteq> CHR ''='' \<and> c \<noteq> CHR ''-'' \<and> c \<noteq> CHR ''['' \<and> \<not> is_space c"
  by (auto simp: is_word_char_def is_space_def Let_def)

lemma hyphen_facts: "\<not> is_space (CHR ''-'') \<and> \<not> is_space (CHR ''='')"
  by (simp add: is_space_def)

lemma key_char_facts: "key_char c \<Longrightarrow> c \<noteq> CHR ''='' \<and> c \<noteq> CHR ''['' \<and> \<not> is_space c"
  using word_char_facts [of c] hyphen_facts by (auto simp: key_char_def)

lemma hyphen_words_chars: "hyphen_words s = (m, r) \<Longrightarrow> list_all key_char m"
proof (induction s arbitrary: m r rule: hyphen_words.induct)
  case 1
  then show ?case by simp
next
  case (2 c cs)
  show ?case
  proof (cases "c = CHR ''-'' \<and> takeWhile is_word_char cs \<noteq> []")
    case True
    obtain m' r' where h: "hyphen_words (dropWhile is_word_char cs) = (m', r')"
      by (cases "hyphen_words (dropWhile is_word_char cs)")
    from "2.IH" [OF True h] have "list_all key_char m'" .
    moreover from "2.prems" True h have "m = c # takeWhile is_word_char cs @ m'" by simp
    moreover have "list_all key_char (takeWhile is_word_char cs)"
      by (auto simp: list_all_iff key_char_def dest: set_takeWhileD)
    moreover from True have "key_char c" by (simp add: key_char_def)
    ultimately show ?thesis by simp
  next
    case False
    with "2.prems" show ?thesis by auto
  qed
qed

lemma token_parts_chars:
  assumes "token_parts s = Some (k, v, b, rest)"
  shows "k \<noteq> [] \<and> list_all key_char k \<and> list_all (\<lambda>c. \<not> is_space c \<and> c \<noteq> CHR ''['') v \<and>
         (b \<noteq> [] \<longrightarrow> hd b = CHR ''['')"
proof -
  from assms have w: "takeWhile is_word_char s \<noteq> []"
    by (auto simp: token_parts_def split: if_splits)
  obtain m r where h: "hyphen_words (dropWhile is_word_char s) = (m, r)"
    by (cases "hyphen_words (dropWhile is_word_char s)")
  from assms w h obtain r1 where r: "r = CHR ''='' # r1"
    by (auto simp: token_parts_def split: list.splits if_splits)
  let ?P = "\<lambda>c. \<not> is_space c \<and> c \<noteq> CHR ''[''"
  from assms w h r have parts: "k = takeWhile is_word_char s @ m" "v = takeWhile ?P r1"
    "bracket_part (dropWhile ?P r1) = (b, rest)"
    by (auto simp: token_parts_def split: prod.splits)
  have k: "list_all key_char k"
    using hyphen_words_chars [OF h] unfolding parts(1)
    by (auto simp: list_all_iff key_char_def dest: set_takeWhileD)
  have v: "list_all ?P v" unfolding parts(2) by (auto simp: list_all_iff dest: set_takeWhileD)
  have b: "b \<noteq> [] \<longrightarrow> hd b = CHR ''[''"
    using parts(3) by (auto simp: bracket_part_def split: list.splits if_splits)
  from w k v b parts(1) show ?thesis by simp
qed

lemma match_token_plain:
  assumes "match_token s = Some (t, rest)" and "CHR ''['' \<notin> set t"
  shows "plain_token t"
proof -
  from assms(1) obtain k v b where p: "token_parts s = Some (k, v, b, rest)" and t: "t = k @ ''='' @ v @ b"
    by (auto simp: match_token_def split: option.splits)
  from token_parts_chars [OF p] have c: "k \<noteq> []" "list_all key_char k"
    "list_all (\<lambda>c. \<not> is_space c \<and> c \<noteq> CHR ''['') v" "b \<noteq> [] \<longrightarrow> hd b = CHR ''[''"
    by simp_all
  have "b = []"
  proof (rule ccontr)
    assume "b \<noteq> []"
    with c(4) have "CHR ''['' \<in> set b" by (cases b) auto
    with assms(2) t show False by simp
  qed
  with t c show ?thesis unfolding plain_token_def by auto
qed

lemma findall_tokens_plain:
  "t \<in> set (findall_tokens s) \<Longrightarrow> CHR ''['' \<notin> set t \<Longrightarrow> plain_token t"
proof (induction s rule: findall_tokens.induct)
  case 1
  then show ?case by simp
next
  case (2 c cs)
  show ?case
  proof (cases "match_token (c # cs)")
    case None
    with 2 show ?thesis by simp
  next
    case (Some p)
    obtain tok rest where p: "p = (tok, rest)" by (cases p)
    from "2.prems"(1) Some p have "t = tok \<or> t \<in> set (findall_tokens rest)" by simp
    then show ?thesis
    proof
      assume "t = tok"
      with Some p "2.prems"(2) show ?thesis by (auto intro: match_token_plain)
    next
      assume "t \<in> set (findall_tokens rest)"
      with "2.IH"(2) Some p "2.prems"(2) show ?thesis by simp
    qed
  qed
qed

lemma plain_token_split:
  assumes "plain_token t"
  shows "t = key_of t @ ''='' @ value_of t \<and> CHR ''='' \<in> set t \<and> list_all (\<lambda>c. \<not> is_space c) t \<and>
         list_all key_char (key_of t)"
proof -
  from assms obtain k v where t: "t = k @ ''='' @ v" and k: "list_all key_char k"
    and v: "list_all (\<lambda>c. \<not> is_space c \<and> c \<noteq> CHR ''['') v"
    unfolding plain_token_def by blast
  from k have ne: "\<forall>c\<in>set k. c \<noteq> CHR ''=''"
    using key_char_facts by (auto simp: list_all_iff)
  then have key: "key_of t = k" unfolding key_of_def t by (simp add: takeWhile_append2)
  from ne have "dropWhile (\<lambda>c. c \<noteq> CHR ''='') t = ''='' @ v"
    unfolding t by (simp add: dropWhile_append2)
  then have val: "value_of t = v" by (simp add: value_of_def)
  have sp: "list_all (\<lambda>c. \<not> is_space c) t"
    using k v key_char_facts hyphen_facts unfolding t by (auto simp: list_all_iff)
  from key val t k sp show ?thesis by simp
qed

lemma strip_no_space: "list_all (\<lambda>c. \<not> is_space c) s \<Longrightarrow> strip s = s"
proof -
  assume a: "list_all (\<lambda>c. \<not> is_space c) s"
  then have "dropWhile is_space s = s" by (cases s) simp_all
  moreover from a have "dropWhile is_space (rev s) = rev s"
    by (cases "rev s") (auto simp: list_all_iff)
  ultimately show ?thesis by (simp add: strip_def)
qed

lemma re_split_from_no_space:
  "list_all (\<lambda>c. \<not> is_space c) s \<Longrightarrow> re_split_from cur s = [cur @ s]"
  by (induction s arbitrary: cur) simp_all

lemma store_plain_token:
  assumes "plain_token t"
  shows "store_plain attrs (re_split_spaces (strip t)) =
         AList.update (key_of t) (Scalar (strip_chars [CHR '' '', CHR 0x22, CHR 0x27] (value_of t))) attrs"
proof -
  from plain_token_split [OF assms] have eq: "CHR ''='' \<in> set t" and sp: "list_all (\<lambda>c. \<not> is_space c) t"
    by simp_all
  from sp have "re_split_spaces (strip t) = [t]"
    by (simp add: strip_no_space re_split_spaces_def re_split_from_no_space)
  with eq show ?thesis by simp
qed

lemma match_pair_key:
  assumes "match_pair s = Some (g, rest)"
  shows "list_all is_word_char (fst (pair_entry g))"
proof -
  have w: "list_all is_word_char (takeWhile is_word_char s)"
    by (auto simp: list_all_iff dest: set_takeWhileD)
  from assms have "takeWhile is_word_char s \<noteq> []"
    by (auto simp: match_pair_def Let_def split: if_splits)
  moreover from assms have "(\<exists>body. g = (takeWhile is_word_char s, body, [], [])) \<or>
      (\<exists>val. g = ([], [], takeWhile is_word_char s, val))"
    by (auto simp: match_pair_def Let_def split: list.splits if_splits)
  ultimately show ?thesis using w by auto
qed

lemma findall_pairs_key:
  "g \<in> set (findall_pairs s) \<Longrightarrow> list_all is_word_char (fst (pair_entry g))"
proof (induction s rule: findall_pairs.induct)
  case 1
  then show ?case by simp
next
  case (2 c cs)
  show ?case
  proof (cases "match_pair (c # cs)")
    case None
    with 2 show ?thesis by simp
  next
    case (Some p)
    obtain g' rest where p: "p = (g', rest)" by (cases p)
    from "2.prems" Some p have "g = g' \<or> g \<in> set (findall_pairs rest)" by simp
    then show ?thesis
    proof
      assume "g = g'"
      with Some p show ?thesis by (auto intro: match_pair_key)
    next
      assume "g \<in> set (findall_pairs rest)"
      with "2.IH"(2) Some p show ?thesis by simp
    qed
  qed
qed

lemma store_pairs_other_key:
  "list_all (\<lambda>g. fst (pair_entry g) \<noteq> k) ps \<Longrightarrow> map_of (store_pairs attrs ps) k = map_of attrs k"
  by (induction attrs ps rule: store_pairs.induct) (auto simp: update_conv')

lemma store_pairs_keys: "fst ` set attrs \<subseteq> fst ` set (store_pairs attrs ps)"
proof (induction attrs ps rule: store_pairs.induct)
  case (1 attrs)
  show ?case by simp
next
  case (2 attrs attr attr_pairs)
  have "fst ` set attrs \<subseteq> fst ` set (AList.update (fst (pair_entry attr)) (snd (pair_entry attr)) attrs)"
    by (auto simp: dom_update)
  with 2 show ?case by auto
qed

lemma store_plain_keys: "fst ` set attrs \<subseteq> fst ` set (store_plain attrs xs)"
proof (induction attrs xs rule: store_plain.induct)
  case (1 attrs)
  show ?case by simp
next
  case (2 attrs attr attrs_list)
  let ?a = "if CHR ''='' \<in> set attr
        then AList.update (key_of attr)
               (Scalar (strip_chars [CHR '' '', CHR 0x22, CHR 0x27] (value_of attr))) attrs
        else attrs"
  have "fst ` set attrs \<subseteq> fst ` set ?a" by (auto simp: dom_update)
  moreover from 2 have "fst ` set ?a \<subseteq> fst ` set (store_plain ?a attrs_list)" by simp
  ultimately show ?case by (simp del: dom_update)
qed

lemma parse_tokens_keys: "fst ` set attrs \<subseteq> fst ` set (parse_tokens s attrs toks)"
proof (induction s attrs toks rule: parse_tokens.induct)
  case (1 attr_str attrs)
  show ?case by simp
next
  case (2 attr_str attrs attribute attributes)
  let ?a = "if CHR ''['' \<in> set attribute then store_pairs attrs (findall_pairs attr_str)
        else store_plain attrs (re_split_spaces (strip attribute))"
  have "fst ` set attrs \<subseteq> fst ` set ?a"
    using store_pairs_keys store_plain_keys by simp
  moreover from 2 have "fst ` set ?a \<subseteq> fst ` set (parse_tokens attr_str ?a attributes)" by simp
  ultimately show ?case by simp
qed

lemma parse_tokens_append:
  "parse_tokens s attrs (xs @ ys) = parse_tokens s (parse_tokens s attrs xs) ys"
  by (induction s attrs xs rule: parse_tokens.induct) simp_all

lemma hyphen_key_not_pair_key:
  assumes "CHR ''-'' \<in> set k"
  shows "list_all (\<lambda>g. fst (pair_entry g) \<noteq> k) (findall_pairs s)"
proof -
  have "fst (pair_entry g) \<noteq> k" if "g \<in> set (findall_pairs s)" for g
  proof
    assume "fst (pair_entry g) = k"
    with findall_pairs_key [OF that] have "list_all is_word_char k" by simp
    with assms have "is_word_char (CHR ''-'')" by (auto simp: list_all_iff)
    then show False using word_char_facts by blast
  qed
  then show ?thesis by (simp add: list_all_iff)
qed

lemma parse_tokens_keeps:
  assumes "CHR ''-'' \<in> set k"
    and "list_all (\<lambda>u. CHR ''['' \<in> set u \<or> (plain_token u \<and> key_of u \<noteq> k)) toks"
  shows "map_of (parse_tokens s attrs toks) k = map_of attrs k"
  using assms(2)
proof (induction s attrs toks rule: parse_tokens.induct)
  case (1 attr_str attrs)
  show ?case by simp
next
  case (2 attr_str attrs attribute attributes)
  let ?a = "if CHR ''['' \<in> set attribute then store_pairs attrs (findall_pairs attr_str)
        else store_plain attrs (re_split_spaces (strip attribute))"
  have "map_of ?a k = map_of attrs k"
  proof (cases "CHR ''['' \<in> set attribute")
    case True
    then show ?thesis
      using store_pairs_other_key [OF hyphen_key_not_pair_key [OF assms(1)]] by simp
  next
    case False
    with "2.prems" have p: "plain_token attribute" and ne: "key_of attribute \<noteq> k" by simp_all
    from False ne show ?thesis by (simp add: store_plain_token [OF p] update_conv')
  qed
  moreover from 2 have "map_of (parse_tokens attr_str ?a attributes) k = map_of ?a k" by simp
  ultimately show ?case by simp
qed

lemmas eval_codec =
  parse_attributes_def split_attributes_improved_def match_token_def token_parts_def
  bracket_part_def match_pair_def is_word_char_def is_space_def strip_def strip_chars_def
  re_split_spaces_def key_of_def value_of_def split_def Let_def

lemma parse_example_hyphen:
  "parse_attributes ''lang=zh data-v-52866abc='' =
     [(''lang'', Scalar ''zh''), (''data-v-52866abc'', Scalar [])]"
  by (simp add: eval_codec)

text \<open>
  The branch for tokens without a list keeps the whole key: every token that
  \<^verbatim>\<open>split_attributes_improved\<close> finds and that holds no \<^verbatim>\<open>[\<close> is its key, \<^verbatim>\<open>=\<close> and its
  value, and \<^verbatim>\<open>parse_attributes\<close> has an entry under the whole key, hyphens included. When
  the key contains a hyphen, and no later token without \<^verbatim>\<open>[\<close> has the same key, the entry
  is the value stripped of spaces and quotes, whatever tokens with \<^verbatim>\<open>[\<close> the string also
  contains.
\<close>

lemma plain_token_entry:
  assumes "split_attributes_improved attr_str = pre @ t # post" and "CHR ''['' \<notin> set t"
  shows "t = key_of t @ ''='' @ value_of t \<and>
         key_of t \<in> fst ` set (parse_attributes attr_str) \<and>
         (CHR ''-'' \<in> set (key_of t) \<and>
          list_all (\<lambda>u. CHR ''['' \<in> set u \<or> key_of u \<noteq> key_of t) post \<longrightarrow>
            map_of (parse_attributes attr_str) (key_of t) =
              Some (Scalar (strip_chars [CHR '' '', CHR 0x22, CHR 0x27] (value_of t)))) \<and>
         parse_attributes ''lang=zh data-v-52866abc='' =
           [(''lang'', Scalar ''zh''), (''data-v-52866abc'', Scalar [])]"
proof -
  let ?val = "Scalar (strip_chars [CHR '' '', CHR 0x22, CHR 0x27] (value_of t))"
  let ?before = "parse_tokens attr_str [] pre"
  from assms(1) have toks: "findall_tokens attr_str = pre @ t # post"
    by (simp add: split_attributes_improved_def)
  then have "t \<in> set (findall_tokens attr_str)" by simp
  from findall_tokens_plain [OF this assms(2)] have pt: "plain_token t" .
  have run: "parse_attributes attr_str =
      parse_tokens attr_str (AList.update (key_of t) ?val ?before) post"
    using assms(2)
    by (simp add: parse_attributes_def assms(1) parse_tokens_append store_plain_token [OF pt])
  have "key_of t \<in> fst ` set (AList.update (key_of t) ?val ?before)" by (simp add: dom_update)
  with parse_tokens_keys [of "AList.update (key_of t) ?val ?before" attr_str post]
  have dom: "key_of t \<in> fst ` set (parse_attributes attr_str)"
    unfolding run by blast
  have last: "map_of (parse_attributes attr_str) (key_of t) = Some ?val"
    if h: "CHR ''-'' \<in> set (key_of t)"
      and l: "list_all (\<lambda>u. CHR ''['' \<in> set u \<or> key_of u \<noteq> key_of t) post"
  proof -
    have "list_all (\<lambda>u. CHR ''['' \<in> set u \<or> (plain_token u \<and> key_of u \<noteq> key_of t)) post"
      unfolding list_all_iff
    proof
      fix u assume u: "u \<in> set post"
      with toks have "u \<in> set (findall_tokens attr_str)" by simp
      then have "CHR ''['' \<notin> set u \<Longrightarrow> plain_token u" by (rule findall_tokens_plain)
      with l u show "CHR ''['' \<in> set u \<or> (plain_token u \<and> key_of u \<noteq> key_of t)"
        by (auto simp: list_all_iff)
    qed
    from parse_tokens_keeps [OF h this] show ?thesis
      unfolding run by (simp add: update_conv')
  qed
  from plain_token_split [OF pt] dom last parse_example_hyphen show ?thesis by blast
qed

lemma plain_token_entry_example:
  "split_attributes_improved ''data-v-52866abc=x class=[btn, active]'' =
     [] @ ''data-v-52866abc=x'' # [''class=[btn, active]''] \<and>
   CHR ''['' \<notin> set ''data-v-52866abc=x'' \<and>
   key_of ''data-v-52866abc=x'' = ''data-v-52866abc'' \<and>
   map_of (parse_attributes ''data-v-52866abc=x class=[btn, active]'') ''data-v-52866abc'' =
     Some (Scalar ''x'')"
proof -
  have a: "split_attributes_improved ''data-v-52866abc=x class=[btn, active]'' =
     [] @ ''data-v-52866abc=x'' # [''class=[btn, active]'']"
    by (simp add: eval_codec)
  have b: "CHR ''['' \<notin> set ''data-v-52866abc=x''" by simp
  have c: "key_of ''data-v-52866abc=x'' = ''data-v-52866abc''" by (simp add: key_of_def)
  have d: "CHR ''-'' \<in> set (key_of ''data-v-52866abc=x'') \<and>
          list_all (\<lambda>u. CHR ''['' \<in> set u \<or> key_of u \<noteq> key_of ''data-v-52866abc=x'')
            [''class=[btn, active]'']"
    by (simp add: key_of_def)
  from plain_token_entry [OF a b] d
  have "map_of (parse_attributes ''data-v-52866abc=x class=[btn, active]'')
          (key_of ''data-v-52866abc=x'') =
        Some (Scalar (strip_chars [CHR '' '', CHR 0x22, CHR 0x27] (value_of ''data-v-52866abc=x'')))"
    by blast
  then have "map_of (parse_attributes ''data-v-52866abc=x class=[btn, active]'') ''data-v-52866abc'' =
     Some (Scalar ''x'')"
    by (simp add: key_of_def value_of_def strip_chars_def)
  with a b c show ?thesis by blast
qed

text \<open>
  C4 at a value that holds a bracket: the descriptor of \<^verbatim>\<open><div data-field="items[0]">\<close> is
  \<^verbatim>\<open>div data-field=items[0]\<close>; the tokenizer keeps the token \<^verbatim>\<open>data-field=items[0]\<close> whole,
  the test for \<^verbatim>\<open>[\<close> sends it to the bracket branch, and \<^verbatim>\<open>parse_attributes\<close> stores the
  value under \<^verbatim>\<open>field\<close>: there is no entry under \<^verbatim>\<open>data-field\<close>. The string
  \<^verbatim>\<open>lang=zh data-v-52866abc=\<close> parses to \<^verbatim>\<open>{lang: "zh", "data-v-52866abc": ""}\<close>.
\<close>

theorem hyphenated_key_bracket_value:
  "element_to_string (Element ''div'' [(''data-field'', Scalar ''items[0]'')] None) =
     ''div data-field=items[0]'' \<and>
   split_attributes_improved ''data-field=items[0]'' = [''data-field=items[0]''] \<and>
   parse_attributes ''data-field=items[0]'' = [(''field'', Scalar ''items[0]'')] \<and>
   map_of (parse_attributes ''data-field=items[0]'') ''data-field'' = None \<and>
   parse_attributes ''lang=zh data-v-52866abc='' =
     [(''lang'', Scalar ''zh''), (''data-v-52866abc'', Scalar [])]"
  by (simp add: eval_codec element_to_string_def)

text \<open>
  C5 at a hyphenated key: the descriptor of \<^verbatim>\<open><form accept-charset="utf-8 iso-8859-1">\<close> is
  \<^verbatim>\<open>form accept-charset=['utf-8', 'iso-8859-1']\<close>; the tokenizer keeps the token whole, and
  \<^verbatim>\<open>parse_attributes\<close> stores the list under \<^verbatim>\<open>charset\<close>, not under \<^verbatim>\<open>accept-charset\<close>.
  The string \<^verbatim>\<open>class=[btn, active]\<close> parses to \<^verbatim>\<open>{class: ["btn", "active"]}\<close>.
\<close>

theorem bracket_list_hyphenated_key:
  "element_to_string (Element ''form'' [(''accept-charset'', Multi [''utf-8'', ''iso-8859-1''])] None) =
     ''form accept-charset=['utf-8', 'iso-8859-1']'' \<and>
   split_attributes_improved ''accept-charset=['utf-8', 'iso-8859-1']'' =
     [''accept-charset=['utf-8', 'iso-8859-1']''] \<and>
   parse_attributes ''accept-charset=['utf-8', 'iso-8859-1']'' =
     [(''charset'', Multi [''utf-8'', ''iso-8859-1''])] \<and>
   parse_attributes ''class=[btn, active]'' = [(''class'', Multi [''btn'', ''active''])]"
  by (simp add: eval_codec element_to_string_def repr_def repr_quote_def repr_char_def)

section \<open>Properties of the reverse locator\<close>

lemma walk_append: "walk cur (xs @ ys) = walk (walk cur xs) ys"
  by (induction xs arbitrary: cur) (simp_all split: option.splits)

lemmas eval_locator =
  find_element_by_path_def soup_node_def found_element_def match_tag_def scenario_html_def
  split_def

text \<open>
  C3, as the code has it: when no descendant matches a segment, the current element stays
  and the loop goes on: the result of \<^verbatim>\<open>find_element_by_path\<close> is what the segments after
  the unresolved one reach from the element reached before it.
\<close>

theorem unresolved_segment_skipped:
  assumes "split '' -> '' path = pre @ part # post"
    and "\<not> contains ''[document]'' part"
    and "found_element (walk (soup_node html) pre) part = None"
  shows "find_element_by_path html path = walk (walk (soup_node html) pre) post"
  using assms by (simp add: find_element_by_path_def walk_append)

lemma scenario_walk_body:
  "walk (soup_node scenario_html) [''[document] '', ''html '', ''body ''] =
     Tag ''body'' [] [Tag ''h1'' [(''id'', Scalar ''main'')] [NavigableString ''Hi'']]"
  by (simp add: eval_locator eval_codec)

lemma scenario_h1_found:
  "found_element (Tag ''body'' [] [Tag ''h1'' [(''id'', Scalar ''main'')] [NavigableString ''Hi'']])
     ''h1 id=main'' = Some (Tag ''h1'' [(''id'', Scalar ''main'')] [NavigableString ''Hi''])"
  by (simp add: eval_locator eval_codec)

theorem unresolved_segment_skipped_witness:
  "split '' -> '' ''[document]  -> main  -> h1 id=main'' =
     [''[document] ''] @ ''main '' # [''h1 id=main''] \<and>
   \<not> contains ''[document]'' ''main '' \<and>
   found_element (walk (soup_node scenario_html) [''[document] '']) ''main '' = None \<and>
   find_element_by_path scenario_html ''[document]  -> main  -> h1 id=main'' =
     Tag ''h1'' [(''id'', Scalar ''main'')] [NavigableString ''Hi'']"
proof -
  have a: "split '' -> '' ''[document]  -> main  -> h1 id=main'' =
     [''[document] ''] @ ''main '' # [''h1 id=main'']"
    by (simp add: split_def)
  have b: "\<not> contains ''[document]'' ''main ''" by simp
  have c: "found_element (walk (soup_node scenario_html) [''[document] '']) ''main '' = None"
    by (simp add: eval_locator eval_codec)
  have "walk (walk (soup_node scenario_html) [''[document] '']) [''h1 id=main''] =
     Tag ''h1'' [(''id'', Scalar ''main'')] [NavigableString ''Hi'']"
    by (simp add: eval_locator eval_codec)
  with unresolved_segment_skipped [OF a b c] a b c show ?thesis by simp
qed

text \<open>
  C3 as stated (the walk stops at the first unresolved segment) fails for the document
  \<^verbatim>\<open><html><body><h1 id="main">Hi</h1></body></html>\<close> and a path with a \<^verbatim>\<open>div\<close> between
  \<^verbatim>\<open>body\<close> and \<^verbatim>\<open>h1\<close>: no \<^verbatim>\<open>div\<close> is found below \<^verbatim>\<open>body\<close>, the next segment is looked
  up all the same, and the result is the \<^verbatim>\<open>h1\<close>, not the \<^verbatim>\<open>body\<close>.
\<close>

theorem stop_at_unresolved_counterexample:
  "split '' -> '' ''[document]  -> html  -> body  -> div  -> h1 id=main'' =
     [''[document] '', ''html '', ''body '', ''div '', ''h1 id=main''] \<and>
   walk (soup_node scenario_html) [''[document] '', ''html '', ''body ''] =
     Tag ''body'' [] [Tag ''h1'' [(''id'', Scalar ''main'')] [NavigableString ''Hi'']] \<and>
   found_element (Tag ''body'' [] [Tag ''h1'' [(''id'', Scalar ''main'')] [NavigableString ''Hi'']])
     ''div '' = None \<and>
   find_element_by_path scenario_html ''[document]  -> html  -> body  -> div  -> h1 id=main'' =
     Tag ''h1'' [(''id'', Scalar ''main'')] [NavigableString ''Hi''] \<and>
   find_element_by_path scenario_html ''[document]  -> html  -> body  -> div  -> h1 id=main'' \<noteq>
     walk (soup_node scenario_html) [''[document] '', ''html '', ''body '']"
proof -
  have a: "split '' -> '' ''[document]  -> html  -> body  -> div  -> h1 id=main'' =
     [''[document] '', ''html '', ''body '', ''div '', ''h1 id=main'']"
    by (simp add: split_def)
  have c: "found_element (Tag ''body'' [] [Tag ''h1'' [(''id'', Scalar ''main'')] [NavigableString ''Hi'']])
     ''div '' = None"
    by (simp add: eval_locator eval_codec)
  have "find_element_by_path scenario_html ''[document]  -> html  -> body  -> div  -> h1 id=main'' =
      walk (walk (soup_node scenario_html) [''[document] '', ''html '', ''body '']) [''div '', ''h1 id=main'']"
    unfolding find_element_by_path_def a by (simp only: walk_append [symmetric] append.simps)
  also have "\<dots> = Tag ''h1'' [(''id'', Scalar ''main'')] [NavigableString ''Hi'']"
    unfolding scenario_walk_body using c scenario_h1_found by simp
  finally have d: "find_element_by_path scenario_html ''[document]  -> html  -> body  -> div  -> h1 id=main'' =
     Tag ''h1'' [(''id'', Scalar ''main'')] [NavigableString ''Hi'']" .
  from a scenario_walk_body c d show ?thesis by simp
qed

section \<open>Properties of the path extractor\<close>

lemma extend_all_concat: "extend_all paths items = paths @ concat (map snd items)"
  by (induction paths items rule: extend_all.induct) simp_all

text \<open>
  C8: for every rule mapping, \<^verbatim>\<open>parse_rules_to_paths\<close> returns the concatenation of the
  lists of paths, in the order of the labels and, within a label, in the order of its list;
  the labels themselves do not appear. The rule \<^verbatim>\<open>{"a": ["P1","P2"], "b": ["P3"]}\<close> gives
  \<^verbatim>\<open>["P1","P2","P3"]\<close>.
\<close>

theorem parse_rules_to_paths_concat:
  "parse_rules_to_paths rules = concat (map snd rules) \<and>
   parse_rules_to_paths [(''a'', [''P1'', ''P2'']), (''b'', [''P3''])] = [''P1'', ''P2'', ''P3'']"
  by (simp add: parse_rules_to_paths_def extend_all_concat)

end
